theory Spec2Isabelle
  imports Main "HOL-Library.Multiset"
begin

section \<open>JavaScript values\<close>

text \<open>
  The pipeline is the class \<open>QAIPipeline\<close>. Scenario objects come out of a JSON
  document, so a property the code guards (\<open>summary\<close>, \<open>type\<close>, \<open>persona\<close>) may be
  absent or hold a value that is not a string. The values of the model are
  \<open>undefined\<close> (an absent property), \<open>null\<close>, the booleans and strings. A string is the
  list of its UTF-16 code units, each a number below 65536; \<open>str\<close> gives the string
  of a literal of the source text.
\<close>

type_synonym js_string = "nat list"

definition str :: "string \<Rightarrow> js_string" where
  "str s = map of_char s"

datatype jsval = JUndefined | JNull | JBool bool | JStr js_string

fun truthy :: "jsval \<Rightarrow> bool" where
  "truthy JUndefined = False"
| "truthy JNull = False"
| "truthy (JBool b) = b"
| "truthy (JStr s) = (s \<noteq> [])"

fun typeof_string :: "jsval \<Rightarrow> bool" where
  "typeof_string (JStr s) = True"
| "typeof_string v = False"

text \<open>What a template literal \<open>`${v}`\<close> and a property key make of a value.\<close>

fun ToString :: "jsval \<Rightarrow> js_string" where
  "ToString JUndefined = str ''undefined''"
| "ToString JNull = str ''null''"
| "ToString (JBool b) = (if b then (str ''true'') else (str ''false''))"
| "ToString (JStr s) = s"

text \<open>\<open>a || 'literal'\<close>\<close>

definition or_else :: "jsval \<Rightarrow> js_string \<Rightarrow> jsval" where
  "or_else v d = (if truthy v then v else JStr d)"

text \<open>
  \<open>String.prototype.trim\<close> removes white space and line terminators from both ends:
  TAB, LF, VT, FF, CR, SP, NBSP, the other space separators of Unicode (U+1680, U+2000 to
  U+200A, U+202F, U+205F, U+3000), the line and paragraph separators U+2028 and U+2029,
  and U+FEFF. Each is a single code unit.
\<close>

definition is_white_space :: "nat \<Rightarrow> bool" where
  "is_white_space c =
     (c \<in> set [0x09, 0x0A, 0x0B, 0x0C, 0x0D, 0x20, 0xA0, 0x1680, 0x2000, 0x2001, 0x2002, 0x2003,
                 0x2004, 0x2005, 0x2006, 0x2007, 0x2008, 0x2009, 0x200A, 0x2028, 0x2029,
                 0x202F, 0x205F, 0x3000, 0xFEFF])"

definition trim :: "js_string \<Rightarrow> js_string" where
  "trim s = rev (dropWhile is_white_space (rev (dropWhile is_white_space s)))"

section \<open>Scenarios and the analysis phase\<close>

record scenario =
  description :: js_string
  priority :: js_string
  type :: jsval
  persona :: jsval
  steps :: "js_string list"
  summary :: jsval

text \<open>\<open>process.env.DEPLOYMENT_URL || 'the app'\<close>: an environment variable is a string or unset.\<close>

definition deploymentUrl :: "js_string option \<Rightarrow> js_string" where
  "deploymentUrl v = (case v of None \<Rightarrow> (str ''the app'') | Some u \<Rightarrow> if u \<noteq> [] then u else (str ''the app''))"

definition synthesized_summary :: "js_string \<Rightarrow> scenario \<Rightarrow> js_string" where
  "synthesized_summary url s =
     (str ''On '') @ url @ (str '', you are testing '') @ ToString (or_else (type s) (str ''a'')) @
     (str '' scenario: '') @ description s @
     (str ''. In this test, follow the steps to validate the expected behavior and surface any validation or UX issues.'')"

text \<open>
  The condition \<open>s.summary && typeof s.summary === 'string' && s.summary.trim()\<close>;
  \<open>trim\<close> is only called on a string, the conjunction stops at the first falsy operand.
\<close>

definition summary_given :: "jsval \<Rightarrow> bool" where
  "summary_given v =
     (truthy v \<and> typeof_string v \<and> (case v of JStr t \<Rightarrow> truthy (JStr (trim t)) | _ \<Rightarrow> False))"

text \<open>The arrow function of \<open>parsedScenarios.map\<close> in \<open>analyzePR\<close>.\<close>

definition with_summary :: "js_string \<Rightarrow> scenario \<Rightarrow> scenario" where
  "with_summary url s =
     s\<lparr>summary := (if summary_given (summary s) then summary s
                    else JStr (synthesized_summary url s))\<rparr>"

text \<open>
  \<open>completion.choices[0].message.parsed.scenarios\<close> is an array of scenario objects or
  something else; on something else \<open>parsedScenarios.map\<close> throws a TypeError.
\<close>

datatype parsed = NotAnArray | Scenarios "scenario list"

datatype js_error = TypeError | Error js_string

text \<open>\<open>if (Array.isArray(parsedScenarios) && parsedScenarios.length > 4) slice(0, 4)\<close>\<close>

definition hard_cap :: "parsed \<Rightarrow> parsed" where
  "hard_cap p = (case p of
       Scenarios xs \<Rightarrow> if length xs > 4 then Scenarios (take 4 xs) else Scenarios xs
     | NotAnArray \<Rightarrow> NotAnArray)"

definition analyzed_scenarios :: "js_string option \<Rightarrow> parsed \<Rightarrow> js_error + scenario list" where
  "analyzed_scenarios env_url p = (case hard_cap p of
       NotAnArray \<Rightarrow> Inl TypeError
     | Scenarios xs \<Rightarrow> Inr (map (with_summary (deploymentUrl env_url)) xs))"

section \<open>The store\<close>

text \<open>
  Modelled from the spec: the relational store behind \<open>this.supabase\<close> is an external
  service. Its three tables are the ones of the spec's section 6:
  \<open>results\<close> (the Runs), \<open>suites\<close> and \<open>tests\<close>, with \<open>tests.name\<close> unique. The columns are
  the ones the code writes and reads. \<open>overall_result\<close> is the object \<open>{}\<close> (\<open>None\<close>) or
  the counts \<open>(passed, failed, total)\<close>; \<open>test_success\<close> is \<open>null\<close> (\<open>None\<close>), true or false.
\<close>

record result_row =
  r_id :: nat
  pr_link :: js_string
  pr_name :: js_string
  overall_result :: "(nat \<times> nat \<times> nat) option"
  r_run_status :: js_string

record suite_row =
  s_id :: nat
  result_id :: nat
  s_name :: js_string

record test_row =
  suite_id :: nat
  t_name :: js_string
  t_summary :: jsval
  test_success :: "bool option"
  t_run_status :: js_string
  t_steps :: "js_string list"

record store =
  results :: "result_row list"
  suites :: "suite_row list"
  tests :: "test_row list"

text \<open>
  Modelled from the spec: the store assigns the identity of a new row; it is a positive
  number no row of the table has.
\<close>

definition fresh_id :: "nat list \<Rightarrow> nat" where
  "fresh_id ids = Suc (fold max ids 0)"

text \<open>
  Modelled from the spec: \<open>upsert(records, { onConflict: 'name' })\<close> inserts a record or,
  when a row of that name exists, overwrites the columns the record gives.
\<close>

definition upsert_one :: "test_row \<Rightarrow> test_row list \<Rightarrow> test_row list" where
  "upsert_one r ts =
     (if t_name r \<in> set (map t_name ts)
      then map (\<lambda>t. if t_name t = t_name r then r else t) ts
      else ts @ [r])"

definition upsert :: "test_row list \<Rightarrow> test_row list \<Rightarrow> test_row list" where
  "upsert records ts = fold upsert_one records ts"

text \<open>
  Modelled from the spec: \<open>readHierarchy\<close>, the select \<open>'*, suites(*, tests(*))'\<close> with
  \<open>.eq('id', resultId).single()\<close>: the Run with its Suites, each with its Tests; no data
  unless exactly one Run has that identity.
\<close>

record suite_snapshot =
  suite :: suite_row
  suite_tests :: "test_row list option"

record result_snapshot =
  result :: result_row
  result_suites :: "suite_snapshot list option"

definition suites_of_result :: "store \<Rightarrow> nat \<Rightarrow> suite_row list" where
  "suites_of_result db rid = filter (\<lambda>s. result_id s = rid) (suites db)"

definition tests_of_suite :: "store \<Rightarrow> nat \<Rightarrow> test_row list" where
  "tests_of_suite db sid = filter (\<lambda>t. suite_id t = sid) (tests db)"

definition readHierarchy :: "store \<Rightarrow> nat option \<Rightarrow> result_snapshot option" where
  "readHierarchy db rid = (case rid of
       None \<Rightarrow> None
     | Some i \<Rightarrow> (case filter (\<lambda>r. r_id r = i) (results db) of
           [r] \<Rightarrow> Some \<lparr>result = r,
                        result_suites = Some (map (\<lambda>s. \<lparr>suite = s, suite_tests = Some (tests_of_suite db (s_id s))\<rparr>)
                                                 (suites_of_result db i))\<rparr>
         | _ \<Rightarrow> None))"

section \<open>The verdict\<close>

text \<open>
  \<open>verifyFinalResults\<close>, on the data the select returned.
  \<open>result.suites?.reduce((acc, s) => acc + (s.tests?.length || 0), 0) || 0\<close>
\<close>

definition totalTests :: "result_snapshot \<Rightarrow> nat" where
  "totalTests res = (case result_suites res of
       None \<Rightarrow> 0
     | Some ss \<Rightarrow> foldl (\<lambda>acc s. acc + (case suite_tests s of None \<Rightarrow> 0 | Some ts \<Rightarrow> length ts)) 0 ss)"

definition passedTests :: "result_snapshot \<Rightarrow> nat" where
  "passedTests res = (case result_suites res of
       None \<Rightarrow> 0
     | Some ss \<Rightarrow> foldl (\<lambda>acc s. acc + (case suite_tests s of None \<Rightarrow> 0
                   | Some ts \<Rightarrow> length (filter (\<lambda>t. test_success t = Some True) ts))) 0 ss)"

definition overallSuccess :: "result_snapshot \<Rightarrow> bool" where
  "overallSuccess res =
     (r_run_status (result res) = (str ''PASSED'') \<or> (passedTests res = totalTests res \<and> totalTests res > 0))"

text \<open>
  The select gives data or \<open>null\<close>, or throws. Without data the function falls off its
  end and returns \<open>undefined\<close>; the \<open>catch\<close> returns \<open>false\<close>.
\<close>

datatype 'a awaited = Threw | Data 'a

definition verifyFinalResults :: "result_snapshot option awaited \<Rightarrow> jsval" where
  "verifyFinalResults r = (case r of
       Threw \<Rightarrow> JBool False
     | Data None \<Rightarrow> JUndefined
     | Data (Some res) \<Rightarrow> JBool (overallSuccess res))"

text \<open>
  The rollup of \<open>updateTestResults\<close> over the rows \<open>allTests\<close> (\<open>null\<close> is \<open>None\<close>): the
  status and the counts it writes to the Run, and it writes only when there is a Test.
\<close>

definition rollup :: "test_row list option \<Rightarrow> (js_string \<times> nat \<times> nat \<times> nat) option" where
  "rollup allTests =
     (let totalTests = (case allTests of None \<Rightarrow> 0 | Some ts \<Rightarrow> length ts);
          passedTests = (case allTests of None \<Rightarrow> 0
                         | Some ts \<Rightarrow> length (filter (\<lambda>test. test_success test = Some True) ts));
          allTestsPassed = (totalTests > 0 \<and> passedTests = totalTests)
      in if totalTests > 0
         then Some (if allTestsPassed then (str ''PASSED'') else (str ''FAILED''),
                    passedTests, totalTests - passedTests, totalTests)
         else None)"

text \<open>The union of all Tests under all Suites of a snapshot.\<close>

definition all_tests :: "result_snapshot \<Rightarrow> test_row list" where
  "all_tests res = (case result_suites res of
       None \<Rightarrow> []
     | Some ss \<Rightarrow> concat (map (\<lambda>s. case suite_tests s of None \<Rightarrow> [] | Some ts \<Rightarrow> ts) ss))"

section \<open>Objects and Maps\<close>

text \<open>
  A plain object \<open>{}\<close> with string keys: its own properties in the order they were
  created. A property that is not its own is looked up in \<open>Object.prototype\<close>, whose
  properties are the twelve below, each a function or an object.
\<close>

type_synonym 'a js_object = "(js_string \<times> 'a) list"

definition Object_prototype_names :: "js_string list" where
  "Object_prototype_names =
     [str ''constructor'', str ''__defineGetter__'', str ''__defineSetter__'', str ''hasOwnProperty'',
      (str ''__lookupGetter__''), str ''__lookupSetter__'', str ''isPrototypeOf'', str ''propertyIsEnumerable'',
      (str ''toString''), str ''valueOf'', str ''__proto__'', str ''toLocaleString'']"

text \<open>\<open>obj[k] = v\<close> on an own or a new property.\<close>

definition set_property :: "'a js_object \<Rightarrow> js_string \<Rightarrow> 'a \<Rightarrow> 'a js_object" where
  "set_property obj k v =
     (if k \<in> set (map fst obj) then map (\<lambda>(k', v'). if k' = k then (k', v) else (k', v')) obj
      else obj @ [(k, v)])"

text \<open>
  An array index is the canonical decimal numeral of an integer from 0 to \<open>2^32 - 2\<close>.
  \<open>Object.keys\<close> lists the own keys that are array indices first, in ascending
  numeric order, then the other keys in the order of their creation.
\<close>

definition is_digit :: "nat \<Rightarrow> bool" where
  "is_digit c = (48 \<le> c \<and> c \<le> 57)"

definition decimal_value :: "js_string \<Rightarrow> nat" where
  "decimal_value k = foldl (\<lambda>n c. 10 * n + (c - 48)) 0 k"

definition is_array_index :: "js_string \<Rightarrow> bool" where
  "is_array_index k =
     (k \<noteq> [] \<and> list_all is_digit k \<and> (k = (str ''0'') \<or> hd k \<noteq> 48) \<and>
      decimal_value k < 2 ^ 32 - 1)"

definition Object_keys :: "'a js_object \<Rightarrow> js_string list" where
  "Object_keys obj =
     sort_key decimal_value (filter is_array_index (map fst obj)) @
     filter (\<lambda>k. \<not> is_array_index k) (map fst obj)"

text \<open>
  A \<open>Map\<close>: its entries in the order their keys were first set; setting a key that
  is present replaces the value and keeps the position.
\<close>

definition Map_set :: "('k \<times> 'v) list \<Rightarrow> 'k \<times> 'v \<Rightarrow> ('k \<times> 'v) list" where
  "Map_set m e =
     (if fst e \<in> set (map fst m) then map (\<lambda>e'. if fst e' = fst e then e else e') m
      else m @ [e])"

definition new_Map :: "('k \<times> 'v) list \<Rightarrow> ('k \<times> 'v) list" where
  "new_Map entries = foldl Map_set [] entries"

definition Map_values :: "('k \<times> 'v) list \<Rightarrow> 'v list" where
  "Map_values m = map snd m"

section \<open>Grouping by persona\<close>

text \<open>\<open>scenario.persona || 'default'\<close>, as the property key it is used as.\<close>

definition persona_key :: "scenario \<Rightarrow> js_string" where
  "persona_key sc = ToString (or_else (persona sc) (str ''default''))"

text \<open>
  The callback of \<open>scenarios.reduce\<close>. When \<open>groups[persona]\<close> is an inherited property
  it is truthy, no array is created, and \<open>push\<close> is not a function of it.
\<close>

definition group_step :: "scenario list js_object \<Rightarrow> scenario \<Rightarrow> js_error + scenario list js_object" where
  "group_step groups sc =
     (let persona = persona_key sc in
      case map_of groups persona of
        Some xs \<Rightarrow> Inr (set_property groups persona (xs @ [sc]))
      | None \<Rightarrow> if persona \<in> set Object_prototype_names then Inl TypeError
                else Inr (set_property groups persona ([] @ [sc])))"

fun reduce_groups :: "scenario list \<Rightarrow> scenario list js_object \<Rightarrow> js_error + scenario list js_object" where
  "reduce_groups [] groups = Inr groups"
| "reduce_groups (sc # scs) groups =
     (case group_step groups sc of Inl e \<Rightarrow> Inl e | Inr groups' \<Rightarrow> reduce_groups scs groups')"

definition personaGroups :: "scenario list \<Rightarrow> js_error + scenario list js_object" where
  "personaGroups scenarios = reduce_groups scenarios []"

text \<open>\<open>Object.keys(personaGroups).slice(0, 4)\<close>\<close>

definition limitedPersonas :: "scenario list js_object \<Rightarrow> js_string list" where
  "limitedPersonas groups = take 4 (Object_keys groups)"

text \<open>\<open>Array.from(new Map(personaScenarios.map(s => [s.description, s])).values())\<close>\<close>

definition uniqueScenarios :: "scenario list \<Rightarrow> scenario list" where
  "uniqueScenarios personaScenarios =
     Map_values (new_Map (map (\<lambda>s. (description s, s)) personaScenarios))"

definition testRecords :: "nat \<Rightarrow> scenario list \<Rightarrow> test_row list" where
  "testRecords sid personaScenarios =
     map (\<lambda>scenario. \<lparr>suite_id = sid, t_name = description scenario, t_summary = summary scenario,
                      test_success = None, t_run_status = str ''RUNNING'', t_steps = []\<rparr>)
         (uniqueScenarios personaScenarios)"

section \<open>The pipeline\<close>

text \<open>
  What the pipeline does to the world outside is kept as a trace: the requests it
  sends to the store and to the execution agent, and the failures it logs with
  \<open>console.error\<close>.
\<close>

datatype event =
    Insert_result
  | Insert_suite suite_row
  | Upsert_tests "test_row list"
  | Update_test js_string
  | Update_result nat js_string
  | Post_run_result nat
  | Select_hierarchy "nat option"
  | Failed_to_create_results_record js_string
  | Failed_to_create_suite js_string
  | Failed_to_create_tests js_string
  | Failed_to_update_test_result js_string
  | Database_upload_error
  | QAI_API_execution_failed js_error

text \<open>
  What \<open>axios.post\<close> gives: it throws an error (the network fails, the timeout passes,
  the HTTP status is not a success), or there is a response with \<open>response.data?.status\<close>.
\<close>

datatype response = Thrown js_error | Response jsval

datatype read_outcome = Read_data | Read_error | Read_throws

text \<open>
  The environment of a run: two variables of \<open>process.env\<close>, and the answers of the
  store and of the agent. The store rejects an insert with an error message or accepts
  it; the answer to the requests made for a persona is a function of that persona, the
  answer to an update of a Test a function of its name. While the agent is called it
  may change the store. A write to the Run whose answer the code does not read is
  applied.
\<close>

record env =
  DEPLOYMENT_URL :: "js_string option"
  QAI_ENDPOINT :: "js_string option"
  result_insert_error :: "js_string option"
  suite_insert_error :: "js_string \<Rightarrow> js_string option"
  tests_upsert_error :: "js_string \<Rightarrow> js_string option"
  test_update_error :: "js_string \<Rightarrow> js_string option"
  agent :: "store \<Rightarrow> response \<times> store"
  hierarchy_read :: read_outcome

text \<open>The fields of \<open>this\<close>, with the store and the trace.\<close>

record pipeline =
  repo :: "js_string list"
  prNumber :: js_string
  resultId :: "nat option"
  suiteIds :: "nat js_object"
  db :: store
  trace :: "event list"

definition emit :: "event \<Rightarrow> pipeline \<Rightarrow> pipeline" where
  "emit e st = st\<lparr>trace := trace st @ [e]\<rparr>"

text \<open>\<open>this.repo.join('/')\<close>\<close>

fun join :: "js_string list \<Rightarrow> js_string \<Rightarrow> js_string" where
  "join [] sep = []"
| "join [x] sep = x"
| "join (x # y # ys) sep = x @ sep @ join (y # ys) sep"

definition prData :: "pipeline \<Rightarrow> nat \<Rightarrow> result_row" where
  "prData st i =
     \<lparr>r_id = i,
      pr_link = (str ''https://github.com/'') @ join (repo st) (str ''/'') @ (str ''/pull/'') @ prNumber st,
      pr_name = (str ''PR #'') @ prNumber st,
      overall_result = None,
      r_run_status = str ''RUNNING''\<rparr>"

text \<open>
  The body of the loop over \<open>limitedPersonas\<close>. \<open>Inl\<close> is a throw, with the state at the
  throw: \<open>personaScenarios.map\<close> when \<open>personaGroups[persona]\<close> is undefined.
\<close>

definition upload_suite ::
  "env \<Rightarrow> nat \<Rightarrow> scenario list js_object \<Rightarrow> js_string \<Rightarrow> pipeline \<Rightarrow> pipeline + pipeline" where
  "upload_suite env rid groups name st =
     (let personaScenarios = map_of groups name;
          sid = fresh_id (map s_id (suites (db st)));
          suiteRecord = \<lparr>s_id = sid, result_id = rid, s_name = name @ (str '' Agent Suite'')\<rparr>;
          st0 = emit (Insert_suite suiteRecord) st
      in case suite_insert_error env name of
           Some msg \<Rightarrow> Inr (emit (Failed_to_create_suite msg) st0)
         | None \<Rightarrow>
             (let st1 = st0\<lparr>db := (db st0)\<lparr>suites := suites (db st0) @ [suiteRecord]\<rparr>,
                            suiteIds := set_property (suiteIds st0) name sid\<rparr>
              in case personaScenarios of
                   None \<Rightarrow> Inl st1
                 | Some scs \<Rightarrow>
                     (let records = testRecords sid scs;
                          st2 = emit (Upsert_tests records) st1
                      in case tests_upsert_error env name of
                           Some msg \<Rightarrow> Inr (emit (Failed_to_create_tests msg) st2)
                         | None \<Rightarrow> Inr (st2\<lparr>db := (db st2)\<lparr>tests := upsert records (tests (db st2))\<rparr>\<rparr>))))"

fun for_personas ::
  "env \<Rightarrow> nat \<Rightarrow> scenario list js_object \<Rightarrow> js_string list \<Rightarrow> pipeline \<Rightarrow> pipeline + pipeline" where
  "for_personas env rid groups [] st = Inr st"
| "for_personas env rid groups (name # rest) st =
     (case upload_suite env rid groups name st of
        Inl st' \<Rightarrow> Inl st'
      | Inr st' \<Rightarrow> for_personas env rid groups rest st')"

definition uploadScenariosToDatabase :: "env \<Rightarrow> scenario list \<Rightarrow> pipeline \<Rightarrow> pipeline" where
  "uploadScenariosToDatabase env scenarios st =
     (let st0 = emit Insert_result st in
      case result_insert_error env of
        Some msg \<Rightarrow> emit (Failed_to_create_results_record msg) st0
      | None \<Rightarrow>
          (let rid = fresh_id (map r_id (results (db st0)));
               st1 = st0\<lparr>db := (db st0)\<lparr>results := results (db st0) @ [prData st0 rid]\<rparr>,
                         resultId := Some rid\<rparr>
           in case personaGroups scenarios of
                Inl e \<Rightarrow> emit Database_upload_error st1
              | Inr groups \<Rightarrow>
                  (case for_personas env rid groups (limitedPersonas groups) (st1\<lparr>suiteIds := []\<rparr>) of
                     Inl st' \<Rightarrow> emit Database_upload_error st'
                   | Inr st' \<Rightarrow> st')))"

text \<open>\<open>analyzePR\<close>, from the parsed completion on.\<close>

definition analyzePR :: "env \<Rightarrow> parsed \<Rightarrow> pipeline \<Rightarrow> js_error + scenario list \<times> pipeline" where
  "analyzePR env p st = (case analyzed_scenarios (DEPLOYMENT_URL env) p of
       Inl e \<Rightarrow> Inl e
     | Inr scenarios \<Rightarrow> Inr (scenarios, uploadScenariosToDatabase env scenarios st))"

text \<open>Truthiness of an environment variable and of \<open>this.resultId\<close>.\<close>

definition set_variable :: "js_string option \<Rightarrow> bool" where
  "set_variable v = (case v of None \<Rightarrow> False | Some u \<Rightarrow> u \<noteq> [])"

definition truthy_id :: "nat option \<Rightarrow> bool" where
  "truthy_id i = (case i of None \<Rightarrow> False | Some n \<Rightarrow> n \<noteq> 0)"

definition update_run_status :: "nat \<Rightarrow> js_string \<Rightarrow> store \<Rightarrow> store" where
  "update_run_status rid status d =
     d\<lparr>results := map (\<lambda>r. if r_id r = rid then r\<lparr>r_run_status := status\<rparr> else r) (results d)\<rparr>"

text \<open>The \<open>catch\<close> block of \<open>runTests\<close>.\<close>

definition runTests_catch :: "js_error \<Rightarrow> pipeline \<Rightarrow> jsval \<times> pipeline" where
  "runTests_catch e st =
     (let st0 = emit (QAI_API_execution_failed e) st in
      (JBool False,
       case resultId st0 of
         None \<Rightarrow> st0
       | Some rid \<Rightarrow> if rid \<noteq> 0
           then (emit (Update_result rid (str ''FAILED'')) st0)\<lparr>db := update_run_status rid (str ''FAILED'') (db st0)\<rparr>
           else st0))"

definition read_result :: "env \<Rightarrow> pipeline \<Rightarrow> result_snapshot option awaited" where
  "read_result env st = (case hierarchy_read env of
       Read_throws \<Rightarrow> Threw
     | Read_error \<Rightarrow> Data None
     | Read_data \<Rightarrow> Data (readHierarchy (db st) (resultId st)))"

definition runTests :: "env \<Rightarrow> scenario list \<Rightarrow> pipeline \<Rightarrow> jsval \<times> pipeline" where
  "runTests env scenarios st =
     (if \<not> set_variable (QAI_ENDPOINT env)
      then runTests_catch (Error (str ''QAI_ENDPOINT environment variable is required'')) st
      else case resultId st of
        None \<Rightarrow> runTests_catch (Error (str ''No result_id available - database upload may have failed'')) st
      | Some rid \<Rightarrow>
          if rid = 0
          then runTests_catch (Error (str ''No result_id available - database upload may have failed'')) st
          else (let (resp, d) = agent env (db st);
                    st1 = (emit (Post_run_result rid) st)\<lparr>db := d\<rparr>
                in case resp of
                     Thrown e \<Rightarrow> runTests_catch e st1
                   | Response status \<Rightarrow>
                       if status \<noteq> JStr (str ''success'')
                       then runTests_catch
                              (Error ((str ''API returned non-success status: '') @ ToString (or_else status (str ''unknown'')))) st1
                       else (let st2 = emit (Select_hierarchy (resultId st1)) st1
                             in (verifyFinalResults (read_result env st2), st2))))"

text \<open>
  The \<open>full\<close> mode of \<open>main\<close>: the exit code of the process. A throw of the analysis
  phase and a falsy result of the test phase exit with 1.
\<close>

definition main_full :: "env \<Rightarrow> parsed \<Rightarrow> pipeline \<Rightarrow> nat \<times> pipeline" where
  "main_full env p st = (case analyzePR env p st of
       Inl e \<Rightarrow> (1, st)
     | Inr (testScenarios, st1) \<Rightarrow>
         (let (testSuccess, st2) = runTests env testScenarios st1
          in (if truthy testSuccess then 0 else 1, st2)))"

text \<open>The pipeline as the constructor leaves it, on a given store.\<close>

definition new_pipeline :: "js_string list \<Rightarrow> js_string \<Rightarrow> store \<Rightarrow> pipeline" where
  "new_pipeline r n d = \<lparr>repo = r, prNumber = n, resultId = None, suiteIds = [], db = d, trace = []\<rparr>"

text \<open>The array stored under a key of the groups, empty for a key that is not there.\<close>

definition group_of :: "'a list js_object \<Rightarrow> js_string \<Rightarrow> 'a list" where
  "group_of groups k = (case map_of groups k of None \<Rightarrow> [] | Some xs \<Rightarrow> xs)"

section \<open>Order of first appearance\<close>

text \<open>
  The elements of a list that are not in \<open>seen\<close>, each once, in the order in which they
  first appear.
\<close>

fun first_seen :: "'a list \<Rightarrow> 'a list \<Rightarrow> 'a list" where
  "first_seen seen [] = []"
| "first_seen seen (x # xs) =
     (if x \<in> set seen then first_seen seen xs else x # first_seen (x # seen) xs)"

section \<open>What was sent to the store\<close>

text \<open>The Suite rows and the Test records of the requests in a trace, in order.\<close>

fun suite_request :: "event \<Rightarrow> suite_row list" where
  "suite_request (Insert_suite row) = [row]"
| "suite_request e = []"

definition suite_requests :: "event list \<Rightarrow> suite_row list" where
  "suite_requests tr = concat (map suite_request tr)"

fun test_request :: "event \<Rightarrow> test_row list" where
  "test_request (Upsert_tests records) = records"
| "test_request e = []"

definition test_requests :: "event list \<Rightarrow> test_row list" where
  "test_requests tr = concat (map test_request tr)"

text \<open>
  A pass of the loop of \<open>uploadScenariosToDatabase\<close> for a persona whose group is \<open>g\<close>:
  what \<open>upload_suite\<close> returns when \<open>personaGroups[persona]\<close> is that array.
\<close>

definition suite_pass :: "env \<Rightarrow> nat \<Rightarrow> scenario list \<Rightarrow> js_string \<Rightarrow> pipeline \<Rightarrow> pipeline" where
  "suite_pass env rid g name st =
     (let sid = fresh_id (map s_id (suites (db st)));
          row = \<lparr>s_id = sid, result_id = rid, s_name = name @ (str '' Agent Suite'')\<rparr>;
          records = testRecords sid g
      in case suite_insert_error env name of
           Some msg \<Rightarrow> st\<lparr>trace := trace st @ [Insert_suite row, Failed_to_create_suite msg]\<rparr>
         | None \<Rightarrow> (case tests_upsert_error env name of
               Some msg \<Rightarrow>
                 st\<lparr>db := (db st)\<lparr>suites := suites (db st) @ [row]\<rparr>,
                    suiteIds := set_property (suiteIds st) name sid,
                    trace := trace st @ [Insert_suite row, Upsert_tests records, Failed_to_create_tests msg]\<rparr>
             | None \<Rightarrow>
                 st\<lparr>db := (db st)\<lparr>suites := suites (db st) @ [row],
                                   tests := upsert records (tests (db st))\<rparr>,
                    suiteIds := set_property (suiteIds st) name sid,
                    trace := trace st @ [Insert_suite row, Upsert_tests records]\<rparr>))"

text \<open>The store accepts the Suite of a persona; it accepts the Suite and the Tests.\<close>

definition suite_accepted :: "env \<Rightarrow> js_string \<Rightarrow> bool" where
  "suite_accepted env name = (suite_insert_error env name = None)"

definition tests_accepted :: "env \<Rightarrow> js_string \<Rightarrow> bool" where
  "tests_accepted env name = (suite_insert_error env name = None \<and> tests_upsert_error env name = None)"

text \<open>The names of the Test records built for a persona.\<close>

definition batch_names :: "scenario list js_object \<Rightarrow> js_string \<Rightarrow> js_string list" where
  "batch_names groups name = first_seen [] (map description (group_of groups name))"

text \<open>
  The constraints of the store on its tables: the names of the Tests are unique, the
  identities of the Suites are unique, every Test refers to a Suite and every Suite to a
  Run that is there.
\<close>

definition wf_store :: "store \<Rightarrow> bool" where
  "wf_store d =
     (distinct (map t_name (tests d)) \<and> distinct (map s_id (suites d)) \<and>
      list_all (\<lambda>t. suite_id t \<in> set (map s_id (suites d))) (tests d) \<and>
      list_all (\<lambda>s. result_id s \<in> set (map r_id (results d))) (suites d))"

text \<open>The Tests under the Suites of a Run, as the select of the hierarchy finds them.\<close>

definition owned :: "store \<Rightarrow> nat \<Rightarrow> test_row list" where
  "owned d rid = filter (\<lambda>t. suite_id t \<in> set (map s_id (suites_of_result d rid))) (tests d)"

text \<open>The names of the Test records the persist step has the store write, in order.\<close>

definition persist_names :: "env \<Rightarrow> scenario list \<Rightarrow> js_string list" where
  "persist_names env scenarios = (case personaGroups scenarios of
       Inl e \<Rightarrow> []
     | Inr groups \<Rightarrow> concat (map (batch_names groups) (filter (tests_accepted env) (limitedPersonas groups))))"

section \<open>Example inputs\<close>

definition draft :: "js_string \<Rightarrow> js_string \<Rightarrow> js_string \<Rightarrow> scenario" where
  "draft d p s = \<lparr>description = d, priority = str ''high'', type = JStr (str ''e2e''), persona = JStr p,
                  steps = [], summary = JStr s\<rparr>"

definition empty_store :: store where
  "empty_store = \<lparr>results = [], suites = [], tests = []\<rparr>"

text \<open>An environment in which the store accepts every write and the agent reports success.\<close>

definition calm_env :: env where
  "calm_env = \<lparr>DEPLOYMENT_URL = Some (str ''https://app.test''), QAI_ENDPOINT = Some (str ''https://qai.test''),
     result_insert_error = None, suite_insert_error = (\<lambda>p. None), tests_upsert_error = (\<lambda>p. None),
     test_update_error = (\<lambda>n. None), agent = (\<lambda>d. (Response (JStr (str ''success'')), d)),
     hierarchy_read = Read_data\<rparr>"

definition test_with_outcome :: "js_string \<Rightarrow> bool option \<Rightarrow> test_row" where
  "test_with_outcome n outcome = \<lparr>suite_id = 1, t_name = n, t_summary = JStr (str ''s''), test_success = outcome,
     t_run_status = (case outcome of None \<Rightarrow> (str ''RUNNING'') | Some b \<Rightarrow> if b then (str ''PASSED'') else (str ''FAILED'')),
     t_steps = []\<rparr>"

text \<open>A snapshot of one Run with one Suite: the stored status of the Run and the outcomes of its Tests.\<close>

definition snapshot_with :: "js_string \<Rightarrow> bool option list \<Rightarrow> result_snapshot" where
  "snapshot_with status outcomes =
     \<lparr>result = \<lparr>r_id = 1, pr_link = str ''https://github.com/o/r/pull/7'', pr_name = str ''PR #7'',
                 overall_result = None, r_run_status = status\<rparr>,
      result_suites = Some [\<lparr>suite = \<lparr>s_id = 1, result_id = 1, s_name = str ''admin Agent Suite''\<rparr>,
                             suite_tests = Some (map (test_with_outcome (str ''t'')) outcomes)\<rparr>]\<rparr>"

text \<open>An environment like \<open>calm_env\<close> whose store rejects the insert of the Run.\<close>

definition no_run_env :: env where
  "no_run_env = calm_env\<lparr>result_insert_error := Some (str ''insert rejected'')\<rparr>"

text \<open>An environment like \<open>calm_env\<close> whose store rejects the Suite of persona \<open>B\<close>.\<close>

definition no_suite_B_env :: env where
  "no_suite_B_env = calm_env\<lparr>suite_insert_error := (\<lambda>p. if p = (str ''B'') then Some (str ''insert rejected'') else None)\<rparr>"

text \<open>An environment like \<open>calm_env\<close> whose agent call times out.\<close>

definition timeout_env :: env where
  "timeout_env = calm_env\<lparr>agent := (\<lambda>d. (Thrown (Error (str ''timeout of 660000ms exceeded'')), d))\<rparr>"

text \<open>A pipeline whose Run 1 is stored and running.\<close>

definition dispatched_pipeline :: pipeline where
  "dispatched_pipeline =
     \<lparr>repo = [str ''o'', str ''r''], prNumber = str ''7'', resultId = Some 1, suiteIds = [],
      db = \<lparr>results = [\<lparr>r_id = 1, pr_link = str ''https://github.com/o/r/pull/7'', pr_name = str ''PR #7'',
                          overall_result = None, r_run_status = str ''RUNNING''\<rparr>],
             suites = [], tests = []\<rparr>,
      trace = []\<rparr>"

text \<open>
  The scenario drafts of the example in section 8 of the specification: the personas
  \<open>B\<close> and \<open>C\<close> share a description.
\<close>

definition spec_example :: "scenario list" where
  "spec_example = [draft (str ''desc1'') (str ''A'') (str ''first''), draft (str ''desc1'') (str ''A'') (str ''last''), draft (str ''desc2'') (str ''A'') (str ''s2''),
                   draft (str ''desc3'') (str ''B'') (str ''s3''), draft (str ''desc3'') (str ''C'') (str ''s4'')]"

text \<open>Five personas, the last one an array index; six scenarios of five plain personas.\<close>

definition five_personas :: "scenario list" where
  "five_personas = [draft (str ''d1'') (str ''b'') (str ''s1''), draft (str ''d2'') (str ''c'') (str ''s2''), draft (str ''d3'') (str ''d'') (str ''s3''),
                    draft (str ''d4'') (str ''e'') (str ''s4''), draft (str ''d5'') (str ''1'') (str ''s5'')]"

definition five_plain_personas :: "scenario list" where
  "five_plain_personas = [draft (str ''d1'') (str ''b'') (str ''s1''), draft (str ''d2'') (str ''c'') (str ''s2''), draft (str ''d3'') (str ''d'') (str ''s3''),
                    draft (str ''d4'') (str ''b'') (str ''s4''), draft (str ''d5'') (str ''e'') (str ''s5''), draft (str ''d6'') (str ''f'') (str ''s6'')]"




section \<open>Unfolding the definitions on a concrete input\<close>

lemma str_eq_iff [simp]: "str a = str b \<longleftrightarrow> a = b"
proof -
  have "inj (of_char :: char \<Rightarrow> nat)" by (rule injI) simp
  then show ?thesis unfolding str_def by (rule inj_map_eq_map)
qed

lemma str_Nil_iff [simp]: "str a = [] \<longleftrightarrow> a = []"
  by (simp add: str_def)

lemma str_append [simp]: "str a @ str b = str (a @ b)"
  by (simp add: str_def)

lemmas pipeline_defs =
  str_def uploadScenariosToDatabase_def personaGroups_def group_step_def set_property_def persona_key_def
  or_else_def Object_prototype_names_def limitedPersonas_def Object_keys_def is_array_index_def
  is_digit_def decimal_value_def
  upload_suite_def testRecords_def uniqueScenarios_def new_Map_def Map_set_def Map_values_def
  upsert_def upsert_one_def fresh_id_def emit_def prData_def new_pipeline_def Let_def

lemmas example_defs =
  draft_def empty_store_def calm_env_def no_run_env_def no_suite_B_env_def timeout_env_def

section \<open>Lemmas on trimming\<close>

lemma trim_Nil_iff: "trim t = [] \<longleftrightarrow> (\<forall>c\<in>set t. is_white_space c)"
proof
  assume "trim t = []"
  then have all: "\<forall>c\<in>set (dropWhile is_white_space t). is_white_space c"
    by (simp add: trim_def)
  have "dropWhile is_white_space t \<noteq> [] \<Longrightarrow> \<not> is_white_space (hd (dropWhile is_white_space t))"
    by (rule hd_dropWhile)
  with all have "dropWhile is_white_space t = []"
    by (cases "dropWhile is_white_space t") auto
  then show "\<forall>c\<in>set t. is_white_space c"
    by simp
next
  assume "\<forall>c\<in>set t. is_white_space c"
  then show "trim t = []"
    by (auto simp: trim_def dest: set_dropWhileD)
qed

lemma summary_given_iff:
  "summary_given v \<longleftrightarrow> (\<exists>t. v = JStr t \<and> (\<exists>c\<in>set t. \<not> is_white_space c))"
  by (cases v) (auto simp: summary_given_def trim_Nil_iff)

section \<open>The summary of a generated scenario\<close>

text \<open>
  What the callback of the map in \<open>analyzePR\<close> does to one scenario, for a given
  deployment URL.
\<close>

lemma with_summary_template:
  "summary (with_summary url s) =
     (if \<exists>t. summary s = JStr t \<and> (\<exists>c\<in>set t. \<not> is_white_space c) then summary s
      else JStr ((str ''On '') @ url @ (str '', you are testing '') @ ToString (or_else (type s) (str ''a'')) @
             (str '' scenario: '') @ description s @
             (str ''. In this test, follow the steps to validate the expected behavior and surface any validation or UX issues.'')))
   \<and> description (with_summary url s) = description s
   \<and> priority (with_summary url s) = priority s
   \<and> type (with_summary url s) = type s
   \<and> persona (with_summary url s) = persona s
   \<and> steps (with_summary url s) = steps s"
  unfolding with_summary_def summary_given_iff synthesized_summary_def by simp

section \<open>The verdict of a Run\<close>

lemma foldl_add_sum: "foldl (\<lambda>acc s. acc + f s) (n::nat) ss = n + sum_list (map f ss)"
  by (induction ss arbitrary: n) auto

lemma totalTests_all_tests: "totalTests res = length (all_tests res)"
proof (cases "result_suites res")
  case None
  then show ?thesis by (simp add: totalTests_def all_tests_def)
next
  case (Some ss)
  have "sum_list (map (\<lambda>s. case suite_tests s of None \<Rightarrow> 0 | Some ts \<Rightarrow> length ts) ss)
        = length (concat (map (\<lambda>s. case suite_tests s of None \<Rightarrow> [] | Some ts \<Rightarrow> ts) ss))"
    by (induction ss) (auto split: option.splits)
  with Some show ?thesis
    by (simp add: totalTests_def all_tests_def foldl_add_sum)
qed

lemma passedTests_all_tests:
  "passedTests res = length (filter (\<lambda>t. test_success t = Some True) (all_tests res))"
proof (cases "result_suites res")
  case None
  then show ?thesis by (simp add: passedTests_def all_tests_def)
next
  case (Some ss)
  have "sum_list (map (\<lambda>s. case suite_tests s of None \<Rightarrow> 0
            | Some ts \<Rightarrow> length (filter (\<lambda>t. test_success t = Some True) ts)) ss)
        = length (filter (\<lambda>t. test_success t = Some True)
            (concat (map (\<lambda>s. case suite_tests s of None \<Rightarrow> [] | Some ts \<Rightarrow> ts) ss)))"
    by (induction ss) (auto split: option.splits)
  with Some show ?thesis
    by (simp add: passedTests_def all_tests_def foldl_add_sum)
qed

lemma length_filter_eq_iff: "length (filter P xs) = length xs \<longleftrightarrow> (\<forall>x\<in>set xs. P x)"
proof
  assume len: "length (filter P xs) = length xs"
  show "\<forall>x\<in>set xs. P x"
  proof
    fix x assume "x \<in> set xs"
    then show "P x"
      using len length_filter_less [of x xs P] by auto
  qed
next
  assume "\<forall>x\<in>set xs. P x"
  then show "length (filter P xs) = length xs" by simp
qed

text \<open>
  C1, as the code has it. The verdict of \<open>verifyFinalResults\<close> on a snapshot is success
  exactly when the stored status of the Run is already \<open>PASSED\<close>, or there is at least
  one Test and the outcome of every Test is exactly true; an outcome \<open>null\<close> is not
  a pass. The two counts are the number of Tests under all Suites and the number of
  those whose outcome is true. The rollup of \<open>updateTestResults\<close> writes \<open>PASSED\<close> exactly
  when there is a Test and every outcome is true, with passed, failed and total as
  counts over the Tests, and writes nothing when there is no Test.
\<close>

theorem verdict_rollup:
  "(overallSuccess res \<longleftrightarrow>
      r_run_status (result res) = (str ''PASSED'') \<or>
      (length (all_tests res) > 0 \<and> (\<forall>t\<in>set (all_tests res). test_success t = Some True)))
   \<and> totalTests res = length (all_tests res)
   \<and> passedTests res = length (filter (\<lambda>t. test_success t = Some True) (all_tests res))
   \<and> verifyFinalResults (Data (Some res)) = JBool (overallSuccess res)
   \<and> rollup (Some ts) =
       (if ts = [] then None
        else Some (if \<forall>t\<in>set ts. test_success t = Some True then (str ''PASSED'') else (str ''FAILED''),
                   length (filter (\<lambda>t. test_success t = Some True) ts),
                   length ts - length (filter (\<lambda>t. test_success t = Some True) ts),
                   length ts))"
  by (auto simp add: overallSuccess_def totalTests_all_tests passedTests_all_tests
      length_filter_eq_iff verifyFinalResults_def rollup_def Let_def)

theorem verdict_rollup_witness:
  "\<not> overallSuccess (snapshot_with (str ''RUNNING'') [Some True, Some True, None])
   \<and> totalTests (snapshot_with (str ''RUNNING'') [Some True, Some True, None]) = 3
   \<and> passedTests (snapshot_with (str ''RUNNING'') [Some True, Some True, None]) = 2
   \<and> verifyFinalResults (Data (Some (snapshot_with (str ''RUNNING'') [Some True, Some True, None]))) = JBool False
   \<and> rollup (Some (map (test_with_outcome (str ''t'')) [Some True, Some True, None])) = Some (str ''FAILED'', 2, 1, 3)"
  using verdict_rollup [of "snapshot_with (str ''RUNNING'') [Some True, Some True, None]"
                           "map (test_with_outcome (str ''t'')) [Some True, Some True, None]"]
  by (simp add: snapshot_with_def test_with_outcome_def all_tests_def)

text \<open>
  C1 as stated fails: on a snapshot whose stored status is \<open>PASSED\<close> the verdict is
  success although the only Test has the outcome \<open>null\<close>, and also when there is no
  Test at all.
\<close>

theorem verdict_counterexample:
  "verifyFinalResults (Data (Some (snapshot_with (str ''PASSED'') [None]))) = JBool True
   \<and> totalTests (snapshot_with (str ''PASSED'') [None]) = 1
   \<and> passedTests (snapshot_with (str ''PASSED'') [None]) = 0
   \<and> verifyFinalResults (Data (Some (snapshot_with (str ''PASSED'') []))) = JBool True
   \<and> totalTests (snapshot_with (str ''PASSED'') []) = 0"
  by (simp add: verifyFinalResults_def overallSuccess_def totalTests_def passedTests_def
      snapshot_with_def test_with_outcome_def)

section \<open>Failures of the store and of the agent\<close>

lemma for_personas_append:
  "for_personas env rid groups (xs @ ys) st =
     (case for_personas env rid groups xs st of
        Inl st' \<Rightarrow> Inl st'
      | Inr st' \<Rightarrow> for_personas env rid groups ys st')"
  by (induction xs arbitrary: st) (auto split: sum.splits)

lemma update_run_status_status:
  "r \<in> set (results (update_run_status rid status d)) \<Longrightarrow> r_id r = rid \<Longrightarrow> r_run_status r = status"
proof -
  assume mem: "r \<in> set (results (update_run_status rid status d))" and rid: "r_id r = rid"
  from mem have "r \<in> (\<lambda>x. if r_id x = rid then x\<lparr>r_run_status := status\<rparr> else x) ` set (results d)"
    by (simp add: update_run_status_def)
  then obtain x where x: "r = (if r_id x = rid then x\<lparr>r_run_status := status\<rparr> else x)"
    by (rule imageE)
  show ?thesis
  proof (cases "r_id x = rid")
    case True
    with x show ?thesis by simp
  next
    case False
    with x rid show ?thesis by simp
  qed
qed

lemma update_run_status_ids:
  "map r_id (results (update_run_status rid status d)) = map r_id (results d)"
  by (induction "results d") (simp_all add: update_run_status_def)

lemma runTests_catch_Some:
  "resultId st = Some rid \<Longrightarrow> rid \<noteq> 0 \<Longrightarrow>
   runTests_catch e st =
     (JBool False, st\<lparr>db := update_run_status rid (str ''FAILED'') (db st),
                       trace := trace st @ [QAI_API_execution_failed e, Update_result rid (str ''FAILED'')]\<rparr>)"
  by (simp add: runTests_catch_def emit_def Let_def)

lemma runTests_dispatch:
  assumes "set_variable (QAI_ENDPOINT env)" "resultId st = Some rid" "rid \<noteq> 0"
    "agent env (db st) = (resp, d)"
  shows "runTests env scenarios st =
      (case resp of
         Thrown e \<Rightarrow> runTests_catch e ((emit (Post_run_result rid) st)\<lparr>db := d\<rparr>)
       | Response status \<Rightarrow>
           if status \<noteq> JStr (str ''success'')
           then runTests_catch (Error ((str ''API returned non-success status: '') @ ToString (or_else status (str ''unknown''))))
                  ((emit (Post_run_result rid) st)\<lparr>db := d\<rparr>)
           else (verifyFinalResults (read_result env
                    (st\<lparr>db := d, trace := trace st @ [Post_run_result rid, Select_hierarchy (Some rid)]\<rparr>)),
                 st\<lparr>db := d, trace := trace st @ [Post_run_result rid, Select_hierarchy (Some rid)]\<rparr>))"
  using assms by (cases resp) (simp_all add: runTests_def Let_def emit_def)

text \<open>
  C6. When the store rejects the insert of the Run, \<open>uploadScenariosToDatabase\<close> only
  logs the failure: the store, \<open>resultId\<close> and \<open>suiteIds\<close> stay as they were, and no
  request for a Suite or a Test is made. The full pipeline, started as the constructor
  leaves it, then makes no call to the agent and exits with code 1; its whole trace is
  the rejected insert and the two logged failures.
\<close>

theorem run_creation_failure:
  "result_insert_error env = Some msg \<Longrightarrow>
     uploadScenariosToDatabase env scenarios st
       = st\<lparr>trace := trace st @ [Insert_result, Failed_to_create_results_record msg]\<rparr>
   \<and> (\<exists>e. main_full env (Scenarios xs) (new_pipeline r n d)
          = (1, (new_pipeline r n d)\<lparr>trace := [Insert_result, Failed_to_create_results_record msg,
                                                  QAI_API_execution_failed e]\<rparr>))"
  by (simp add: uploadScenariosToDatabase_def emit_def main_full_def analyzePR_def
      analyzed_scenarios_def hard_cap_def runTests_def runTests_catch_def new_pipeline_def Let_def)

theorem run_creation_failure_witness:
  "result_insert_error no_run_env = Some (str ''insert rejected'')
   \<and> main_full no_run_env (Scenarios [draft (str ''login'') (str ''admin'') (str ''Log in.'')])
        (new_pipeline [str ''o'', str ''r''] (str ''7'') empty_store)
      = (1, \<lparr>repo = [str ''o'', str ''r''], prNumber = str ''7'', resultId = None, suiteIds = [],
              db = empty_store,
              trace = [Insert_result, Failed_to_create_results_record (str ''insert rejected''),
                       QAI_API_execution_failed
                         (Error (str ''No result_id available - database upload may have failed''))]\<rparr>)"
  using run_creation_failure [of no_run_env "(str ''insert rejected'')" "[]" "new_pipeline [] [] empty_store"
          "[draft (str ''login'') (str ''admin'') (str ''Log in.'')]" "[str ''o'', str ''r'']" "(str ''7'')" empty_store]
  by (simp add: no_run_env_def calm_env_def new_pipeline_def main_full_def analyzePR_def
      analyzed_scenarios_def hard_cap_def uploadScenariosToDatabase_def emit_def runTests_def
      runTests_catch_def set_variable_def Let_def)

text \<open>
  C5. Take a call of \<open>runTests\<close> that reaches the agent: the endpoint is configured and
  \<open>resultId\<close> is set. Unless the agent answers with the status \<open>success\<close>, the result is
  \<open>false\<close>, the hierarchy is not read (the trace gains the call, the logged failure and
  the update of the Run, nothing else), and in the store the agent left every Run with
  that identity has the status \<open>FAILED\<close>, the Runs being the same otherwise. When the
  answer is \<open>success\<close>, the hierarchy is read and the result is the verdict.
\<close>

theorem dispatch_failure:
  assumes "set_variable (QAI_ENDPOINT env)" and "resultId st = Some rid" and "rid \<noteq> 0"
    and "agent env (db st) = (resp, d)"
  shows
    "(resp \<noteq> Response (JStr (str ''success'')) \<longrightarrow>
        (\<exists>e. runTests env scenarios st
           = (JBool False,
              st\<lparr>db := update_run_status rid (str ''FAILED'') d,
                 trace := trace st @ [Post_run_result rid, QAI_API_execution_failed e,
                                      Update_result rid (str ''FAILED'')]\<rparr>))
        \<and> (\<forall>r\<in>set (results (update_run_status rid (str ''FAILED'') d)).
              r_id r = rid \<longrightarrow> r_run_status r = (str ''FAILED''))
        \<and> map r_id (results (update_run_status rid (str ''FAILED'') d)) = map r_id (results d))
   \<and> (resp = Response (JStr (str ''success'')) \<longrightarrow>
        runTests env scenarios st
          = (verifyFinalResults
               (read_result env (st\<lparr>db := d, trace := trace st @ [Post_run_result rid, Select_hierarchy (Some rid)]\<rparr>)),
             st\<lparr>db := d, trace := trace st @ [Post_run_result rid, Select_hierarchy (Some rid)]\<rparr>))"
proof -
  let ?st1 = "(emit (Post_run_result rid) st)\<lparr>db := d\<rparr>"
  note run = runTests_dispatch [OF assms, of scenarios]
  have caught: "runTests_catch e ?st1 =
      (JBool False, st\<lparr>db := update_run_status rid (str ''FAILED'') d,
         trace := trace st @ [Post_run_result rid, QAI_API_execution_failed e, Update_result rid (str ''FAILED'')]\<rparr>)" for e
    using runTests_catch_Some [of ?st1 rid e] assms(2,3) by (simp add: emit_def)
  have fail: "\<exists>e. runTests env scenarios st
           = (JBool False,
              st\<lparr>db := update_run_status rid (str ''FAILED'') d,
                 trace := trace st @ [Post_run_result rid, QAI_API_execution_failed e,
                                      Update_result rid (str ''FAILED'')]\<rparr>)"
    if neq: "resp \<noteq> Response (JStr (str ''success''))"
  proof (cases resp)
    case (Thrown e)
    have "runTests env scenarios st = runTests_catch e ?st1"
      by (subst run, subst Thrown) (simp only: response.case)
    then show ?thesis by (subst (asm) caught) (rule exI)
  next
    case (Response status)
    with neq have "status \<noteq> JStr (str ''success'')" by simp
    then have "runTests env scenarios st =
        runTests_catch (Error ((str ''API returned non-success status: '') @ ToString (or_else status (str ''unknown'')))) ?st1"
      by (subst run, subst Response) (simp only: response.case if_True if_False simp_thms)
    then show ?thesis by (subst (asm) caught) (rule exI)
  qed
  have ok: "runTests env scenarios st
          = (verifyFinalResults
               (read_result env (st\<lparr>db := d, trace := trace st @ [Post_run_result rid, Select_hierarchy (Some rid)]\<rparr>)),
             st\<lparr>db := d, trace := trace st @ [Post_run_result rid, Select_hierarchy (Some rid)]\<rparr>)"
    if "resp = Response (JStr (str ''success''))"
    by (subst run, subst that) (simp only: response.case if_False if_True simp_thms)
  have status: "\<forall>r\<in>set (results (update_run_status rid (str ''FAILED'') d)).
              r_id r = rid \<longrightarrow> r_run_status r = str ''FAILED''"
    using update_run_status_status [of _ rid "(str ''FAILED'')" d] by (intro ballI impI)
  show ?thesis
    using fail ok status update_run_status_ids [of rid "(str ''FAILED'')" d] by (intro conjI impI)
qed

theorem dispatch_failure_witness:
  "set_variable (QAI_ENDPOINT timeout_env) \<and> resultId dispatched_pipeline = Some 1
   \<and> agent timeout_env (db dispatched_pipeline)
       = (Thrown (Error (str ''timeout of 660000ms exceeded'')), db dispatched_pipeline)
   \<and> fst (runTests timeout_env [] dispatched_pipeline) = JBool False
   \<and> map r_run_status (results (db (snd (runTests timeout_env [] dispatched_pipeline)))) = [str ''FAILED'']
   \<and> trace (snd (runTests timeout_env [] dispatched_pipeline))
        = [Post_run_result 1, QAI_API_execution_failed (Error (str ''timeout of 660000ms exceeded'')),
           Update_result 1 (str ''FAILED'')]"
proof -
  have h: "set_variable (QAI_ENDPOINT timeout_env)" "resultId dispatched_pipeline = Some 1" "(1::nat) \<noteq> 0"
    "agent timeout_env (db dispatched_pipeline)
       = (Thrown (Error (str ''timeout of 660000ms exceeded'')), db dispatched_pipeline)"
    by (simp_all add: timeout_env_def calm_env_def dispatched_pipeline_def set_variable_def)
  show ?thesis
    using h dispatch_failure [OF h, of "[]"]
    by (simp add: timeout_env_def calm_env_def dispatched_pipeline_def set_variable_def
      runTests_def runTests_catch_def emit_def update_run_status_def Let_def)
qed

text \<open>
  C7. When the store rejects the Suite of a persona, the pass of the loop for that
  persona only makes the rejected request and logs the failure: the store and
  \<open>suiteIds\<close> stay as they were, no Test of that persona is sent. The loop does not
  stop: the personas after it are processed from that state.
\<close>

theorem suite_creation_failure:
  "suite_insert_error env name = Some msg \<Longrightarrow>
     upload_suite env rid groups name st
       = Inr (st\<lparr>trace := trace st @
                [Insert_suite \<lparr>s_id = fresh_id (map s_id (suites (db st))), result_id = rid,
                               s_name = name @ (str '' Agent Suite'')\<rparr>,
                 Failed_to_create_suite msg]\<rparr>)
   \<and> for_personas env rid groups (before @ name # rest) st
       = (case for_personas env rid groups before st of
            Inl st' \<Rightarrow> Inl st'
          | Inr st' \<Rightarrow> for_personas env rid groups rest
              (st'\<lparr>trace := trace st' @
                 [Insert_suite \<lparr>s_id = fresh_id (map s_id (suites (db st'))), result_id = rid,
                                s_name = name @ (str '' Agent Suite'')\<rparr>,
                  Failed_to_create_suite msg]\<rparr>))"
  by (simp add: for_personas_append upload_suite_def emit_def Let_def split: sum.splits)

theorem suite_creation_failure_witness:
  "suite_insert_error no_suite_B_env (str ''B'') = Some (str ''insert rejected'')
   \<and> upload_suite no_suite_B_env 1 [(str ''B'', [draft (str ''d2'') (str ''B'') (str ''s'')])] (str ''B'')
        (new_pipeline [str ''o'', str ''r''] (str ''7'') empty_store)
      = Inr ((new_pipeline [str ''o'', str ''r''] (str ''7'') empty_store)
              \<lparr>trace := [Insert_suite \<lparr>s_id = 1, result_id = 1, s_name = str ''B Agent Suite''\<rparr>,
                         Failed_to_create_suite (str ''insert rejected'')]\<rparr>)
   \<and> map s_name (suites (db (uploadScenariosToDatabase no_suite_B_env
          [draft (str ''d1'') (str ''A'') (str ''s''), draft (str ''d2'') (str ''B'') (str ''s''), draft (str ''d3'') (str ''C'') (str ''s'')]
          (new_pipeline [str ''o'', str ''r''] (str ''7'') empty_store)))) = [str ''A Agent Suite'', str ''C Agent Suite'']
   \<and> map t_name (tests (db (uploadScenariosToDatabase no_suite_B_env
          [draft (str ''d1'') (str ''A'') (str ''s''), draft (str ''d2'') (str ''B'') (str ''s''), draft (str ''d3'') (str ''C'') (str ''s'')]
          (new_pipeline [str ''o'', str ''r''] (str ''7'') empty_store)))) = [str ''d1'', str ''d3'']"
proof -
  have h: "suite_insert_error no_suite_B_env (str ''B'') = Some (str ''insert rejected'')"
    by (simp add: no_suite_B_env_def calm_env_def)
  have "upload_suite no_suite_B_env 1 [(str ''B'', [draft (str ''d2'') (str ''B'') (str ''s'')])] (str ''B'')
        (new_pipeline [str ''o'', str ''r''] (str ''7'') empty_store)
      = Inr ((new_pipeline [str ''o'', str ''r''] (str ''7'') empty_store)
              \<lparr>trace := [Insert_suite \<lparr>s_id = 1, result_id = 1, s_name = str ''B Agent Suite''\<rparr>,
                         Failed_to_create_suite (str ''insert rejected'')]\<rparr>)"
    using suite_creation_failure [OF h, of 1 "[(str ''B'', [draft (str ''d2'') (str ''B'') (str ''s'')])]"
        "new_pipeline [str ''o'', str ''r''] (str ''7'') empty_store" "[]" "[]"]
    by (simp add: new_pipeline_def empty_store_def fresh_id_def)
  moreover have "map s_name (suites (db (uploadScenariosToDatabase no_suite_B_env
          [draft (str ''d1'') (str ''A'') (str ''s''), draft (str ''d2'') (str ''B'') (str ''s''), draft (str ''d3'') (str ''C'') (str ''s'')]
          (new_pipeline [str ''o'', str ''r''] (str ''7'') empty_store)))) = [str ''A Agent Suite'', str ''C Agent Suite'']"
    by (simp add: pipeline_defs example_defs)
  moreover have "map t_name (tests (db (uploadScenariosToDatabase no_suite_B_env
          [draft (str ''d1'') (str ''A'') (str ''s''), draft (str ''d2'') (str ''B'') (str ''s''), draft (str ''d3'') (str ''C'') (str ''s'')]
          (new_pipeline [str ''o'', str ''r''] (str ''7'') empty_store)))) = [str ''d1'', str ''d3'']"
    by (simp add: pipeline_defs example_defs)
  ultimately show ?thesis using h by (intro conjI)
qed

section \<open>Deduplication within a persona group\<close>

subsection \<open>Maps\<close>

lemma first_seen_cong: "set seen = set seen' \<Longrightarrow> first_seen seen xs = first_seen seen' xs"
proof (induction xs arbitrary: seen seen')
  case Nil
  show ?case by simp
next
  case (Cons x xs)
  have "first_seen (x # seen) xs = first_seen (x # seen') xs"
    by (rule Cons.IH) (simp add: Cons.prems)
  moreover have "first_seen seen xs = first_seen seen' xs"
    by (rule Cons.IH) (rule Cons.prems)
  ultimately show ?case using Cons.prems by simp
qed

lemma set_first_seen: "set (first_seen seen xs) = set xs - set seen"
  by (induction xs arbitrary: seen) auto

lemma distinct_first_seen: "distinct (first_seen seen xs)"
  by (induction xs arbitrary: seen) (auto simp: set_first_seen)

lemma keys_Map_set:
  "map fst (Map_set m e) = (if fst e \<in> set (map fst m) then map fst m else map fst m @ [fst e])"
proof -
  have "map fst (map (\<lambda>e'. if fst e' = fst e then e else e') m) = map fst m"
    by (induction m) auto
  then show ?thesis by (simp add: Map_set_def)
qed

lemma map_of_replace:
  "map_of (map (\<lambda>e'. if fst e' = fst e then e else e') m) k =
     (if k = fst e then (if fst e \<in> fst ` set m then Some (snd e) else None) else map_of m k)"
proof (induction m)
  case Nil
  show ?case by simp
next
  case (Cons a m)
  show ?case
  proof (cases "fst a = fst e")
    case True
    with Cons show ?thesis by simp
  next
    case False
    with Cons show ?thesis by (cases "k = fst e") simp_all
  qed
qed

lemma map_of_Map_set: "map_of (Map_set m e) k = (if k = fst e then Some (snd e) else map_of m k)"
proof (cases "fst e \<in> set (map fst m)")
  case True
  then show ?thesis by (simp add: Map_set_def map_of_replace)
next
  case False
  then have "map_of m (fst e) = None" by (simp add: map_of_eq_None_iff)
  with False show ?thesis by (simp add: Map_set_def map_add_def split: option.splits)
qed

lemma keys_foldl_Map_set:
  "map fst (foldl Map_set m es) = map fst m @ first_seen (map fst m) (map fst es)"
proof (induction es arbitrary: m)
  case Nil
  then show ?case by simp
next
  case (Cons e es)
  show ?case
  proof (cases "fst e \<in> set (map fst m)")
    case True
    then show ?thesis using Cons [of "Map_set m e"] by (simp add: keys_Map_set)
  next
    case False
    have "first_seen (map fst m @ [fst e]) (map fst es) = first_seen (fst e # map fst m) (map fst es)"
      by (rule first_seen_cong) auto
    with False show ?thesis using Cons [of "Map_set m e"] by (simp add: keys_Map_set)
  qed
qed

lemma map_of_foldl_Map_set:
  "map_of (foldl Map_set m es) k = (case map_of (rev es) k of Some v \<Rightarrow> Some v | None \<Rightarrow> map_of m k)"
proof (induction es arbitrary: m)
  case Nil
  then show ?case by simp
next
  case (Cons e es)
  show ?case
    by (cases e) (auto simp: Cons map_of_Map_set map_of_append split: option.splits)
qed

lemma map_of_rev_keyed:
  "map_of (rev (map (\<lambda>s. (f s, s)) g)) d =
     (if d \<in> f ` set g then Some (last (filter (\<lambda>s. f s = d) g)) else None)"
proof (induction g rule: rev_induct)
  case Nil
  then show ?case by simp
next
  case (snoc x xs)
  then show ?case by auto
qed

subsection \<open>Deduplication by description\<close>

lemma keys_new_Map: "map fst (new_Map es) = first_seen [] (map fst es)"
  by (simp add: new_Map_def keys_foldl_Map_set)

lemma map_of_new_Map: "map_of (new_Map es) k = map_of (rev es) k"
  by (simp add: new_Map_def map_of_foldl_Map_set split: option.splits)

lemma new_Map_entry:
  assumes "(d, u) \<in> set (new_Map (map (\<lambda>s. (description s, s)) g))"
  shows "u = last (filter (\<lambda>s. description s = d) g) \<and> description u = d"
proof -
  let ?M = "new_Map (map (\<lambda>s. (description s, s)) g)"
  have "distinct (map fst ?M)"
    by (simp only: keys_new_Map distinct_first_seen)
  then have "map_of ?M d = Some u"
    using assms by (rule map_of_is_SomeI)
  then have look: "map_of (rev (map (\<lambda>s. (description s, s)) g)) d = Some u"
    by (simp only: map_of_new_Map)
  have mem: "d \<in> description ` set g"
    using look by (simp add: map_of_rev_keyed split: if_splits)
  from look mem have u: "u = last (filter (\<lambda>s. description s = d) g)"
    by (simp add: map_of_rev_keyed)
  from mem have "filter (\<lambda>s. description s = d) g \<noteq> []"
    by (auto simp: filter_empty_conv)
  then have "last (filter (\<lambda>s. description s = d) g) \<in> set (filter (\<lambda>s. description s = d) g)"
    by (rule last_in_set)
  with u show ?thesis by simp
qed


lemma descriptions_uniqueScenarios:
  "map description (uniqueScenarios g) = first_seen [] (map description g)"
proof -
  let ?M = "new_Map (map (\<lambda>s. (description s, s)) g)"
  have "map description (uniqueScenarios g) = map (\<lambda>e. description (snd e)) ?M"
    by (simp add: uniqueScenarios_def Map_values_def)
  also have "\<dots> = map fst ?M"
  proof (rule map_cong)
    fix e assume "e \<in> set ?M"
    then have "(fst e, snd e) \<in> set ?M" by simp
    then have "description (snd e) = fst e" using new_Map_entry by blast
    then show "description (snd e) = fst e" .
  qed simp
  also have "\<dots> = first_seen [] (map description g)"
    by (simp add: keys_new_Map comp_def)
  finally show ?thesis .
qed

lemma names_testRecords: "map t_name (testRecords sid g) = first_seen [] (map description g)"
  by (simp add: testRecords_def comp_def descriptions_uniqueScenarios [symmetric])

lemma length_uniqueScenarios: "length (uniqueScenarios g) \<le> length g"
proof -
  have "length (first_seen seen xs) \<le> length xs" for seen and xs :: "js_string list"
    by (induction xs arbitrary: seen) (auto intro: le_SucI)
  from this [of "[]" "map description g"] show ?thesis
    by (simp add: descriptions_uniqueScenarios [symmetric])
qed

subsection \<open>Upsert\<close>

lemma names_upsert_one:
  "map t_name (upsert_one r ts) =
     (if t_name r \<in> set (map t_name ts) then map t_name ts else map t_name ts @ [t_name r])"
proof -
  have "map t_name (map (\<lambda>t. if t_name t = t_name r then r else t) ts) = map t_name ts"
    by (induction ts) simp_all
  then show ?thesis by (simp add: upsert_one_def)
qed

lemma upsert_one_self: "r \<in> set (upsert_one r ts)"
proof (cases "t_name r \<in> set (map t_name ts)")
  case True
  then obtain t where "t \<in> set ts" "t_name t = t_name r" by auto
  then have "(\<lambda>t. if t_name t = t_name r then r else t) t \<in> set (upsert_one r ts)"
    using True by (simp add: upsert_one_def)
  with \<open>t_name t = t_name r\<close> show ?thesis by simp
next
  case False
  then show ?thesis by (simp add: upsert_one_def)
qed

lemma upsert_one_other: "t \<in> set ts \<Longrightarrow> t_name t \<noteq> t_name r \<Longrightarrow> t \<in> set (upsert_one r ts)"
proof -
  assume t: "t \<in> set ts" and neq: "t_name t \<noteq> t_name r"
  show ?thesis
  proof (cases "t_name r \<in> set (map t_name ts)")
    case True
    from t have "(\<lambda>t. if t_name t = t_name r then r else t) t \<in> set (upsert_one r ts)"
      using True by (simp add: upsert_one_def)
    with neq show ?thesis by simp
  next
    case False
    with t show ?thesis by (simp add: upsert_one_def)
  qed
qed

lemma upsert_one_cases:
  "t \<in> set (upsert_one r ts) \<Longrightarrow> t = r \<or> (t \<in> set ts \<and> t_name t \<noteq> t_name r)"
proof -
  assume mem: "t \<in> set (upsert_one r ts)"
  show ?thesis
  proof (cases "t_name r \<in> set (map t_name ts)")
    case True
    with mem have "t \<in> (\<lambda>t. if t_name t = t_name r then r else t) ` set ts"
      by (simp add: upsert_one_def)
    then obtain x where x: "x \<in> set ts" "t = (if t_name x = t_name r then r else x)"
      by (rule imageE)
    show ?thesis
    proof (cases "t_name x = t_name r")
      case True
      with x show ?thesis by simp
    next
      case False
      with x show ?thesis by simp
    qed
  next
    case False
    with mem have "t \<in> set ts \<or> t = r" by (auto simp: upsert_one_def)
    moreover have "t_name t \<noteq> t_name r" if "t \<in> set ts"
      using that False by (metis image_eqI image_set)
    ultimately show ?thesis by blast
  qed
qed

lemma upsert_Cons: "upsert (r # recs) ts = upsert recs (upsert_one r ts)"
  by (simp add: upsert_def)

lemma upsert_Nil: "upsert [] ts = ts"
  by (simp add: upsert_def)

lemma names_upsert:
  "map t_name (upsert recs ts) = map t_name ts @ first_seen (map t_name ts) (map t_name recs)"
proof (induction recs arbitrary: ts)
  case Nil
  show ?case by (simp add: upsert_Nil)
next
  case (Cons r recs)
  show ?case
  proof (cases "t_name r \<in> set (map t_name ts)")
    case True
    then show ?thesis using Cons [of "upsert_one r ts"] by (simp add: upsert_Cons names_upsert_one)
  next
    case False
    have "first_seen (map t_name ts @ [t_name r]) (map t_name recs)
          = first_seen (t_name r # map t_name ts) (map t_name recs)"
      by (rule first_seen_cong) auto
    with False show ?thesis using Cons [of "upsert_one r ts"] by (simp add: upsert_Cons names_upsert_one)
  qed
qed

lemma distinct_upsert: "distinct (map t_name ts) \<Longrightarrow> distinct (map t_name (upsert recs ts))"
  by (auto simp: names_upsert distinct_first_seen set_first_seen)

lemma upsert_keeps:
  "t \<in> set ts \<Longrightarrow> t_name t \<notin> t_name ` set recs \<Longrightarrow> t \<in> set (upsert recs ts)"
proof (induction recs arbitrary: ts)
  case Nil
  then show ?case by (simp add: upsert_Nil)
next
  case (Cons r recs)
  from Cons.prems have "t \<in> set (upsert_one r ts)"
    by (intro upsert_one_other) auto
  moreover from Cons.prems have "t_name t \<notin> t_name ` set recs" by auto
  ultimately show ?case unfolding upsert_Cons by (rule Cons.IH)
qed

lemma upsert_member:
  "distinct (map t_name recs) \<Longrightarrow> r \<in> set recs \<Longrightarrow> r \<in> set (upsert recs ts)"
proof (induction recs arbitrary: ts)
  case Nil
  then show ?case by simp
next
  case (Cons a recs)
  show ?case
  proof (cases "r = a")
    case True
    have "a \<in> set (upsert_one a ts)" by (rule upsert_one_self)
    moreover from Cons.prems have "t_name a \<notin> t_name ` set recs" by auto
    ultimately have "a \<in> set (upsert recs (upsert_one a ts))" by (rule upsert_keeps)
    with True show ?thesis by (simp add: upsert_Cons)
  next
    case False
    with Cons.prems have "distinct (map t_name recs)" "r \<in> set recs" by auto
    then show ?thesis unfolding upsert_Cons by (rule Cons.IH)
  qed
qed

lemma upsert_cases:
  "t \<in> set (upsert recs ts) \<Longrightarrow> t \<in> set recs \<or> (t \<in> set ts \<and> t_name t \<notin> t_name ` set recs)"
proof (induction recs arbitrary: ts)
  case Nil
  then show ?case by (simp add: upsert_Nil)
next
  case (Cons r recs)
  from Cons.prems have "t \<in> set (upsert recs (upsert_one r ts))" by (simp add: upsert_Cons)
  then have "t \<in> set recs \<or> (t \<in> set (upsert_one r ts) \<and> t_name t \<notin> t_name ` set recs)"
    by (rule Cons.IH)
  then show ?case
  proof
    assume "t \<in> set recs"
    then show ?thesis by simp
  next
    assume a: "t \<in> set (upsert_one r ts) \<and> t_name t \<notin> t_name ` set recs"
    then have "t = r \<or> (t \<in> set ts \<and> t_name t \<noteq> t_name r)"
      by (intro upsert_one_cases) simp
    with a show ?thesis by auto
  qed
qed




section \<open>Grouping by persona: what the groups are\<close>

lemma set_property_Map_set: "set_property obj k v = Map_set obj (k, v)"
proof -
  have "map (\<lambda>(k', v'). if k' = k then (k', v) else (k', v')) obj
        = map (\<lambda>e'. if fst e' = fst (k, v) then (k, v) else e') obj"
    by (rule map_cong) auto
  then show ?thesis by (simp add: set_property_def Map_set_def)
qed

lemma map_of_Some_iff_key: "(\<exists>xs. map_of groups k = Some xs) \<longleftrightarrow> k \<in> set (map fst groups)"
  using map_of_eq_None_iff [of groups k] by (cases "map_of groups k") auto

lemma group_step_Inr:
  assumes "group_step groups sc = Inr g"
  shows "map fst g = (if persona_key sc \<in> set (map fst groups) then map fst groups
                      else map fst groups @ [persona_key sc])"
    and "map_of g k = (if k = persona_key sc then Some (group_of groups k @ [sc]) else map_of groups k)"
proof -
  have g: "g = Map_set groups (persona_key sc, group_of groups (persona_key sc) @ [sc])"
    using assms
    by (cases "map_of groups (persona_key sc)")
       (auto simp: group_step_def group_of_def set_property_Map_set Let_def split: if_splits)
  show "map fst g = (if persona_key sc \<in> set (map fst groups) then map fst groups
                      else map fst groups @ [persona_key sc])"
    unfolding g by (simp add: keys_Map_set)
  show "map_of g k = (if k = persona_key sc then Some (group_of groups k @ [sc]) else map_of groups k)"
    unfolding g by (simp add: map_of_Map_set)
qed

lemma group_step_Inl:
  "group_step groups sc = Inl e \<longleftrightarrow>
     e = TypeError \<and> persona_key sc \<notin> set (map fst groups) \<and> persona_key sc \<in> set Object_prototype_names"
proof (cases "map_of groups (persona_key sc)")
  case None
  then have "persona_key sc \<notin> set (map fst groups)" by (simp add: map_of_eq_None_iff)
  with None show ?thesis by (auto simp: group_step_def Let_def)
next
  case (Some xs)
  then have "persona_key sc \<in> set (map fst groups)"
    using map_of_Some_iff_key [of groups "persona_key sc"] by blast
  with Some show ?thesis by (simp add: group_step_def Let_def)
qed

lemma reduce_groups_keys:
  "reduce_groups scs groups = Inr g \<Longrightarrow>
   map fst g = map fst groups @ first_seen (map fst groups) (map persona_key scs)"
proof (induction scs arbitrary: groups)
  case Nil
  then show ?case by simp
next
  case (Cons sc scs)
  from Cons.prems obtain g' where step: "group_step groups sc = Inr g'"
    and rest: "reduce_groups scs g' = Inr g"
    by (auto split: sum.splits)
  note keys' = group_step_Inr(1) [OF step]
  note IH = Cons.IH [OF rest]
  show ?case
  proof (cases "persona_key sc \<in> set (map fst groups)")
    case True
    with keys' IH show ?thesis by simp
  next
    case False
    have "first_seen (map fst groups @ [persona_key sc]) (map persona_key scs)
          = first_seen (persona_key sc # map fst groups) (map persona_key scs)"
      by (rule first_seen_cong) auto
    with False keys' IH show ?thesis by simp
  qed
qed

lemma reduce_groups_group:
  "reduce_groups scs groups = Inr g \<Longrightarrow>
   group_of g k = group_of groups k @ filter (\<lambda>s. persona_key s = k) scs"
proof (induction scs arbitrary: groups)
  case Nil
  then show ?case by simp
next
  case (Cons sc scs)
  from Cons.prems obtain g' where step: "group_step groups sc = Inr g'"
    and rest: "reduce_groups scs g' = Inr g"
    by (auto split: sum.splits)
  have "group_of g' k = (if k = persona_key sc then group_of groups k @ [sc] else group_of groups k)"
    using group_step_Inr(2) [OF step, of k] by (simp add: group_of_def)
  with Cons.IH [OF rest] show ?case by simp
qed

lemma reduce_groups_Inl:
  "reduce_groups scs groups = Inl e \<Longrightarrow>
   e = TypeError \<and> (\<exists>s\<in>set scs. persona_key s \<in> set Object_prototype_names)"
proof (induction scs arbitrary: groups)
  case Nil
  then show ?case by simp
next
  case (Cons sc scs)
  show ?case
  proof (cases "group_step groups sc")
    case (Inl e')
    with Cons.prems have "e' = e" by simp
    with Inl show ?thesis using group_step_Inl [of groups sc e] by simp
  next
    case (Inr g')
    with Cons.prems have "reduce_groups scs g' = Inl e" by simp
    from Cons.IH [OF this] show ?thesis by simp
  qed
qed

lemma personaGroups_keys:
  "personaGroups scenarios = Inr groups \<Longrightarrow>
   map fst groups = first_seen [] (map persona_key scenarios)"
  using reduce_groups_keys [of scenarios "[]" groups] by (simp add: personaGroups_def)

lemma personaGroups_group:
  assumes "personaGroups scenarios = Inr groups"
  shows "map_of groups k =
     (if k \<in> persona_key ` set scenarios then Some (filter (\<lambda>s. persona_key s = k) scenarios) else None)"
proof (cases "k \<in> persona_key ` set scenarios")
  case True
  then have "k \<in> set (map fst groups)"
    by (simp add: personaGroups_keys [OF assms] set_first_seen)
  then obtain xs where xs: "map_of groups k = Some xs"
    using map_of_Some_iff_key [of groups k] by blast
  then have "group_of groups k = xs" by (simp add: group_of_def)
  moreover have "group_of groups k = filter (\<lambda>s. persona_key s = k) scenarios"
    using reduce_groups_group [of scenarios "[]" groups k] assms
    by (simp add: personaGroups_def group_of_def)
  ultimately show ?thesis using True xs by simp
next
  case False
  then have "k \<notin> set (map fst groups)"
    by (simp add: personaGroups_keys [OF assms] set_first_seen)
  then have "map_of groups k = None" by (simp add: map_of_eq_None_iff)
  with False show ?thesis by simp
qed

lemma personaGroups_Inr:
  "\<forall>s\<in>set scenarios. persona_key s \<notin> set Object_prototype_names \<Longrightarrow>
   \<exists>groups. personaGroups scenarios = Inr groups"
proof (cases "personaGroups scenarios")
  case (Inl e)
  assume "\<forall>s\<in>set scenarios. persona_key s \<notin> set Object_prototype_names"
  with reduce_groups_Inl [of scenarios "[]" e] Inl show ?thesis
    by (auto simp: personaGroups_def)
next
  case (Inr g)
  then show ?thesis by blast
qed

lemma upload_suite_sent:
  assumes "map_of groups name = Some g" "suite_insert_error env name = None"
  shows "\<exists>st' rest. upload_suite env rid groups name st = Inr st'
     \<and> trace st' = trace st @
          [Insert_suite \<lparr>s_id = fresh_id (map s_id (suites (db st))), result_id = rid,
                         s_name = name @ (str '' Agent Suite'')\<rparr>,
           Upsert_tests (testRecords (fresh_id (map s_id (suites (db st)))) g)] @ rest"
  using assms by (cases "tests_upsert_error env name") (simp_all add: upload_suite_def emit_def Let_def)

lemma testRecords_suite_id: "r \<in> set (testRecords sid g) \<Longrightarrow> suite_id r = sid"
  by (auto simp: testRecords_def)



section \<open>The loop over the personas\<close>

lemma upload_suite_pass:
  "map_of groups name = Some g \<Longrightarrow>
   upload_suite env rid groups name st = Inr (suite_pass env rid g name st)"
  by (cases "suite_insert_error env name"; cases "tests_upsert_error env name")
     (simp_all add: upload_suite_def suite_pass_def emit_def Let_def)

lemma for_personas_fold:
  "set ps \<subseteq> set (map fst groups) \<Longrightarrow>
   for_personas env rid groups ps st
     = Inr (fold (\<lambda>p. suite_pass env rid (group_of groups p) p) ps st)"
proof (induction ps arbitrary: st)
  case Nil
  show ?case by simp
next
  case (Cons p ps)
  from Cons.prems have "p \<in> set (map fst groups)" by simp
  then obtain g where g: "map_of groups p = Some g"
    using map_of_Some_iff_key [of groups p] by blast
  then have "group_of groups p = g" by (simp add: group_of_def)
  with g have "upload_suite env rid groups p st = Inr (suite_pass env rid (group_of groups p) p st)"
    by (simp add: upload_suite_pass)
  moreover from Cons.prems have "set ps \<subseteq> set (map fst groups)" by simp
  ultimately show ?case by (simp add: Cons.IH)
qed

lemma suite_pass_results:
  "results (db (suite_pass env rid g name st)) = results (db st)"
  "resultId (suite_pass env rid g name st) = resultId st"
  by (cases "suite_insert_error env name"; cases "tests_upsert_error env name";
      simp add: suite_pass_def Let_def)+

lemma suite_pass_suite_requests:
  "suite_requests (trace (suite_pass env rid g name st)) =
     suite_requests (trace st) @
       [\<lparr>s_id = fresh_id (map s_id (suites (db st))), result_id = rid, s_name = name @ (str '' Agent Suite'')\<rparr>]"
  by (cases "suite_insert_error env name"; cases "tests_upsert_error env name")
     (simp_all add: suite_pass_def suite_requests_def Let_def)

lemma suite_pass_suites:
  "suites (db (suite_pass env rid g name st)) =
     suites (db st) @
       (if suite_accepted env name
        then [\<lparr>s_id = fresh_id (map s_id (suites (db st))), result_id = rid, s_name = name @ (str '' Agent Suite'')\<rparr>]
        else [])"
  by (cases "suite_insert_error env name"; cases "tests_upsert_error env name")
     (simp_all add: suite_pass_def suite_accepted_def Let_def)

lemma suite_pass_test_requests:
  "test_requests (trace (suite_pass env rid g name st)) =
     test_requests (trace st) @
       (if suite_accepted env name then testRecords (fresh_id (map s_id (suites (db st)))) g else [])"
  by (cases "suite_insert_error env name"; cases "tests_upsert_error env name")
     (simp_all add: suite_pass_def suite_accepted_def test_requests_def Let_def)

lemma suite_pass_tests:
  "tests (db (suite_pass env rid g name st)) =
     (if tests_accepted env name
      then upsert (testRecords (fresh_id (map s_id (suites (db st)))) g) (tests (db st))
      else tests (db st))"
  by (cases "suite_insert_error env name"; cases "tests_upsert_error env name")
     (simp_all add: suite_pass_def tests_accepted_def Let_def)

lemma first_seen_append:
  "first_seen seen (xs @ ys) = first_seen seen xs @ first_seen (seen @ xs) ys"
proof (induction xs arbitrary: seen)
  case Nil
  show ?case by simp
next
  case (Cons x xs)
  show ?case
  proof (cases "x \<in> set seen")
    case True
    have "first_seen (seen @ x # xs) ys = first_seen (seen @ xs) ys"
      by (rule first_seen_cong) (use True in auto)
    with True show ?thesis by (simp add: Cons)
  next
    case False
    have "first_seen (seen @ x # xs) ys = first_seen ((x # seen) @ xs) ys"
      by (rule first_seen_cong) auto
    with False show ?thesis by (simp add: Cons)
  qed
qed

lemma first_seen_Nil: "set xs \<subseteq> set seen \<Longrightarrow> first_seen seen xs = []"
  by (induction xs) auto

lemma fold_suite_requests:
  "map s_name (suite_requests (trace (fold (\<lambda>p. suite_pass env rid (group_of groups p) p) ps st))) =
     map s_name (suite_requests (trace st)) @ map (\<lambda>p. p @ (str '' Agent Suite'')) ps"
  by (induction ps arbitrary: st) (simp_all add: suite_pass_suite_requests)

lemma fold_suites:
  "map s_name (suites (db (fold (\<lambda>p. suite_pass env rid (group_of groups p) p) ps st))) =
     map s_name (suites (db st)) @ map (\<lambda>p. p @ (str '' Agent Suite'')) (filter (suite_accepted env) ps)"
  by (induction ps arbitrary: st) (simp_all add: suite_pass_suites)

lemma fold_test_requests:
  "map t_name (test_requests (trace (fold (\<lambda>p. suite_pass env rid (group_of groups p) p) ps st))) =
     map t_name (test_requests (trace st)) @
       concat (map (batch_names groups) (filter (suite_accepted env) ps))"
  by (induction ps arbitrary: st)
     (simp_all add: suite_pass_test_requests names_testRecords batch_names_def)

lemma fold_tests:
  "map t_name (tests (db (fold (\<lambda>p. suite_pass env rid (group_of groups p) p) ps st))) =
     map t_name (tests (db st)) @
       first_seen (map t_name (tests (db st)))
         (concat (map (batch_names groups) (filter (tests_accepted env) ps)))"
proof (induction ps arbitrary: st)
  case Nil
  show ?case by simp
next
  case (Cons p ps)
  let ?st1 = "suite_pass env rid (group_of groups p) p st"
  let ?rest = "concat (map (batch_names groups) (filter (tests_accepted env) ps))"
  show ?case
  proof (cases "tests_accepted env p")
    case False
    then have "tests (db ?st1) = tests (db st)" by (simp add: suite_pass_tests)
    with False show ?thesis using Cons [of ?st1] by simp
  next
    case True
    let ?names = "map t_name (tests (db st))"
    have n1: "map t_name (tests (db ?st1)) = ?names @ first_seen ?names (batch_names groups p)"
      using True by (simp add: suite_pass_tests names_upsert names_testRecords batch_names_def)
    have "first_seen (?names @ first_seen ?names (batch_names groups p)) ?rest
          = first_seen (?names @ batch_names groups p) ?rest"
      by (rule first_seen_cong) (auto simp: set_first_seen)
    then show ?thesis
      using True Cons [of ?st1] by (simp add: n1 first_seen_append)
  qed
qed

lemma fold_results:
  "results (db (fold (\<lambda>p. suite_pass env rid (group_of groups p) p) ps st)) = results (db st)"
  "resultId (fold (\<lambda>p. suite_pass env rid (group_of groups p) p) ps st) = resultId st"
  by (induction ps arbitrary: st) (simp_all add: suite_pass_results)

section \<open>The keys of an object\<close>

lemma set_Object_keys: "set (Object_keys obj) = set (map fst obj)"
  by (auto simp: Object_keys_def)

lemma distinct_Object_keys: "distinct (map fst obj) \<Longrightarrow> distinct (Object_keys obj)"
  by (auto simp: Object_keys_def)

lemma Object_keys_plain:
  "\<forall>k\<in>set (map fst obj). \<not> is_array_index k \<Longrightarrow> Object_keys obj = map fst obj"
proof -
  assume a: "\<forall>k\<in>set (map fst obj). \<not> is_array_index k"
  then have "filter is_array_index (map fst obj) = []"
    by (simp add: filter_empty_conv)
  moreover from a have "filter (\<lambda>k. \<not> is_array_index k) (map fst obj) = map fst obj"
    by (simp add: filter_id_conv)
  ultimately show ?thesis by (simp add: Object_keys_def)
qed

lemma limitedPersonas_subset: "set (limitedPersonas groups) \<subseteq> set (map fst groups)"
  using set_take_subset [of 4 "Object_keys groups"] by (simp add: limitedPersonas_def set_Object_keys)

section \<open>The persist step as a fold\<close>

lemma requests_Insert_result:
  "suite_requests (tr @ [Insert_result]) = suite_requests tr"
  "test_requests (tr @ [Insert_result]) = test_requests tr"
  by (simp_all add: suite_requests_def test_requests_def)

lemma prData_emit: "prData (emit e st) i = prData st i"
  by (simp add: prData_def emit_def)

lemma uploadScenariosToDatabase_fold:
  assumes "result_insert_error env = None" and "personaGroups scenarios = Inr groups"
  shows "uploadScenariosToDatabase env scenarios st =
     fold (\<lambda>p. suite_pass env (fresh_id (map r_id (results (db st)))) (group_of groups p) p)
       (limitedPersonas groups)
       (st\<lparr>trace := trace st @ [Insert_result],
           db := (db st)\<lparr>results := results (db st) @ [prData st (fresh_id (map r_id (results (db st))))]\<rparr>,
           resultId := Some (fresh_id (map r_id (results (db st)))),
           suiteIds := []\<rparr>)"
proof -
  let ?rid = "fresh_id (map r_id (results (db st)))"
  let ?st1 = "st\<lparr>trace := trace st @ [Insert_result],
           db := (db st)\<lparr>results := results (db st) @ [prData st ?rid]\<rparr>,
           resultId := Some ?rid, suiteIds := []\<rparr>"
  have "uploadScenariosToDatabase env scenarios st =
      (case for_personas env ?rid groups (limitedPersonas groups) ?st1 of
         Inl st' \<Rightarrow> emit Database_upload_error st' | Inr st' \<Rightarrow> st')"
    using assms by (simp add: uploadScenariosToDatabase_def prData_emit Let_def) (simp add: emit_def)
  also have "for_personas env ?rid groups (limitedPersonas groups) ?st1 =
      Inr (fold (\<lambda>p. suite_pass env ?rid (group_of groups p) p) (limitedPersonas groups) ?st1)"
    by (rule for_personas_fold) (rule limitedPersonas_subset)
  finally show ?thesis by simp
qed

lemma limitedPersonas_plain:
  assumes "personaGroups scenarios = Inr groups"
    and "\<forall>s\<in>set scenarios. \<not> is_array_index (persona_key s)"
  shows "limitedPersonas groups = take 4 (first_seen [] (map persona_key scenarios))"
proof -
  have keys: "map fst groups = first_seen [] (map persona_key scenarios)"
    using assms(1) by (rule personaGroups_keys)
  have "\<forall>k\<in>set (map fst groups). \<not> is_array_index k"
    unfolding keys using assms(2) by (auto simp: set_first_seen)
  then have "Object_keys groups = map fst groups" by (rule Object_keys_plain)
  with keys show ?thesis by (simp add: limitedPersonas_def)
qed

text \<open>
  C2, as the code has it. Let no persona label of the list be an array index or the
  name of a property inherited from \<open>Object.prototype\<close>, and let the store accept the
  Run. Then the persist step requests a Suite for each of the first four distinct
  personas, in the order of their first appearance in the input, and for no other; the
  Suites it adds to the store are those among them that the store accepts; and the Test
  records it sends are, for each of those accepted personas in turn, one record for each
  distinct description of the scenarios of that persona. No record of a scenario of a
  later persona is sent.
\<close>

theorem first_four_personas:
  assumes "result_insert_error env = None"
    and "\<forall>s\<in>set scenarios. \<not> is_array_index (persona_key s) \<and> persona_key s \<notin> set Object_prototype_names"
  shows "map s_name (suite_requests (trace (uploadScenariosToDatabase env scenarios st)))
       = map s_name (suite_requests (trace st)) @
         map (\<lambda>p. p @ (str '' Agent Suite'')) (take 4 (first_seen [] (map persona_key scenarios)))
   \<and> map s_name (suites (db (uploadScenariosToDatabase env scenarios st)))
       = map s_name (suites (db st)) @
         map (\<lambda>p. p @ (str '' Agent Suite''))
           (filter (suite_accepted env) (take 4 (first_seen [] (map persona_key scenarios))))
   \<and> map t_name (test_requests (trace (uploadScenariosToDatabase env scenarios st)))
       = map t_name (test_requests (trace st)) @
         concat (map (\<lambda>p. first_seen [] (map description (filter (\<lambda>s. persona_key s = p) scenarios)))
           (filter (suite_accepted env) (take 4 (first_seen [] (map persona_key scenarios)))))"
proof -
  from assms(2) obtain groups where groups: "personaGroups scenarios = Inr groups"
    using personaGroups_Inr [of scenarios] by blast
  let ?first4 = "take 4 (first_seen [] (map persona_key scenarios))"
  have limited: "limitedPersonas groups = ?first4"
    using groups assms(2) by (intro limitedPersonas_plain) auto
  note up = uploadScenariosToDatabase_fold [OF assms(1) groups, of st]
  have batch: "batch_names groups p = first_seen [] (map description (filter (\<lambda>s. persona_key s = p) scenarios))"
    if "p \<in> set ?first4" for p
  proof -
    from that have "p \<in> set (first_seen [] (map persona_key scenarios))" by (rule in_set_takeD)
    then have "p \<in> persona_key ` set scenarios" by (simp add: set_first_seen)
    then have "group_of groups p = filter (\<lambda>s. persona_key s = p) scenarios"
      by (simp add: group_of_def personaGroups_group [OF groups])
    then show ?thesis by (simp add: batch_names_def)
  qed
  have batches: "map (batch_names groups) (filter (suite_accepted env) ?first4)
      = map (\<lambda>p. first_seen [] (map description (filter (\<lambda>s. persona_key s = p) scenarios)))
          (filter (suite_accepted env) ?first4)"
    by (rule map_cong) (simp_all add: batch)
  have a: "map s_name (suite_requests (trace (uploadScenariosToDatabase env scenarios st)))
       = map s_name (suite_requests (trace st)) @ map (\<lambda>p. p @ (str '' Agent Suite'')) ?first4"
    by (simp add: up fold_suite_requests limited requests_Insert_result)
  have b: "map s_name (suites (db (uploadScenariosToDatabase env scenarios st)))
       = map s_name (suites (db st)) @
         map (\<lambda>p. p @ (str '' Agent Suite'')) (filter (suite_accepted env) ?first4)"
    by (simp add: up fold_suites limited)
  have c: "map t_name (test_requests (trace (uploadScenariosToDatabase env scenarios st)))
       = map t_name (test_requests (trace st)) @
         concat (map (\<lambda>p. first_seen [] (map description (filter (\<lambda>s. persona_key s = p) scenarios)))
           (filter (suite_accepted env) ?first4))"
    by (simp add: up fold_test_requests limited requests_Insert_result batches)
  from a b c show ?thesis by (intro conjI)
qed

section \<open>The personas that get a Suite\<close>

theorem first_four_personas_witness:
  "result_insert_error calm_env = None
   \<and> map s_name (suite_requests (trace (uploadScenariosToDatabase calm_env five_plain_personas
          (new_pipeline [str ''o'', str ''r''] (str ''7'') empty_store))))
       = [str ''b Agent Suite'', str ''c Agent Suite'', str ''d Agent Suite'', str ''e Agent Suite'']
   \<and> map s_name (suites (db (uploadScenariosToDatabase calm_env five_plain_personas
          (new_pipeline [str ''o'', str ''r''] (str ''7'') empty_store))))
       = [str ''b Agent Suite'', str ''c Agent Suite'', str ''d Agent Suite'', str ''e Agent Suite'']
   \<and> map t_name (test_requests (trace (uploadScenariosToDatabase calm_env five_plain_personas
          (new_pipeline [str ''o'', str ''r''] (str ''7'') empty_store))))
       = [str ''d1'', str ''d4'', str ''d2'', str ''d3'', str ''d5'']"
proof -
  have h1: "result_insert_error calm_env = None"
    by (simp add: calm_env_def)
  have h2: "\<forall>s\<in>set five_plain_personas.
         \<not> is_array_index (persona_key s) \<and> persona_key s \<notin> set Object_prototype_names"
    by (simp add: five_plain_personas_def draft_def persona_key_def or_else_def is_array_index_def
        is_digit_def Object_prototype_names_def str_def)
  have keys: "map persona_key five_plain_personas = [str ''b'', str ''c'', str ''d'', str ''b'', str ''e'', str ''f'']"
    by (simp add: five_plain_personas_def draft_def persona_key_def or_else_def)
  have acc: "suite_accepted calm_env = (\<lambda>p. True)"
    by (simp add: suite_accepted_def calm_env_def fun_eq_iff)
  have empty: "suite_requests (trace (new_pipeline [str ''o'', str ''r''] (str ''7'') empty_store)) = []"
    "test_requests (trace (new_pipeline [str ''o'', str ''r''] (str ''7'') empty_store)) = []"
    "suites (db (new_pipeline [str ''o'', str ''r''] (str ''7'') empty_store)) = []"
    by (simp_all add: new_pipeline_def empty_store_def suite_requests_def test_requests_def)
  have batches:
    "first_seen [] (map description (filter (\<lambda>s. persona_key s = (str ''b'')) five_plain_personas)) = [str ''d1'', str ''d4'']"
    "first_seen [] (map description (filter (\<lambda>s. persona_key s = (str ''c'')) five_plain_personas)) = [str ''d2'']"
    "first_seen [] (map description (filter (\<lambda>s. persona_key s = (str ''d'')) five_plain_personas)) = [str ''d3'']"
    "first_seen [] (map description (filter (\<lambda>s. persona_key s = (str ''e'')) five_plain_personas)) = [str ''d5'']"
    by (simp_all add: five_plain_personas_def draft_def persona_key_def or_else_def)
  from first_four_personas [OF h1 h2, of "new_pipeline [str ''o'', str ''r''] (str ''7'') empty_store"]
  show ?thesis
    using h1 by (simp add: keys acc empty batches)
qed

text \<open>
  C2 as stated fails. Of the five personas \<open>b\<close>, \<open>c\<close>, \<open>d\<close>, \<open>e\<close>, \<open>1\<close>, in this order, the
  first four distinct ones are \<open>b\<close>, \<open>c\<close>, \<open>d\<close>, \<open>e\<close>; the persist step creates the Suites
  of \<open>1\<close>, \<open>b\<close>, \<open>c\<close>, \<open>d\<close>, and the Test of the fifth persona reaches the store while
  that of the fourth does not.
\<close>

theorem first_four_personas_counterexample:
  "take 4 (first_seen [] (map persona_key five_personas)) = [str ''b'', str ''c'', str ''d'', str ''e'']
   \<and> map s_name (suites (db (uploadScenariosToDatabase calm_env five_personas
          (new_pipeline [str ''o'', str ''r''] (str ''7'') empty_store))))
       = [str ''1 Agent Suite'', str ''b Agent Suite'', str ''c Agent Suite'', str ''d Agent Suite'']
   \<and> map t_name (tests (db (uploadScenariosToDatabase calm_env five_personas
          (new_pipeline [str ''o'', str ''r''] (str ''7'') empty_store))))
       = [str ''d5'', str ''d1'', str ''d2'', str ''d3'']"
  by (simp add: five_personas_def pipeline_defs example_defs)

section \<open>The cap on the scenarios\<close>

lemma analyzed_scenarios_take:
  "analyzed_scenarios url (Scenarios xs) = Inr (map (with_summary (deploymentUrl url)) (take 4 xs))"
  by (simp add: analyzed_scenarios_def hard_cap_def)

lemma with_summary_keeps:
  "description (with_summary u s) = description s"
  "persona_key (with_summary u s) = persona_key s"
  by (simp_all add: with_summary_def persona_key_def)

lemma length_first_seen: "length (first_seen seen xs) \<le> length xs"
  by (induction xs arbitrary: seen) (auto intro: le_SucI)

lemma length_filter_disjoint:
  "(\<And>x. \<not> (P x \<and> Q x)) \<Longrightarrow>
   length (filter (\<lambda>x. P x \<or> Q x) xs) = length (filter P xs) + length (filter Q xs)"
  by (induction xs) auto

lemma sum_list_group_sizes:
  "distinct ps \<Longrightarrow>
   sum_list (map (\<lambda>p. length (filter (\<lambda>s. f s = p) xs)) ps) = length (filter (\<lambda>s. f s \<in> set ps) xs)"
proof (induction ps)
  case Nil
  show ?case by simp
next
  case (Cons p ps)
  from Cons.prems have p: "p \<notin> set ps" and d: "distinct ps" by simp_all
  have "length (filter (\<lambda>s. f s = p \<or> f s \<in> set ps) xs)
        = length (filter (\<lambda>s. f s = p) xs) + length (filter (\<lambda>s. f s \<in> set ps) xs)"
    by (rule length_filter_disjoint) (use p in auto)
  with Cons.IH [OF d] show ?case by simp
qed

lemma sum_list_filter_le: "sum_list (map g (filter P ps)) \<le> sum_list (map (g :: 'a \<Rightarrow> nat) ps)"
  by (induction ps) auto

lemma batch_names_group:
  assumes "personaGroups scenarios = Inr groups"
  shows "batch_names groups p = first_seen [] (map description (filter (\<lambda>s. persona_key s = p) scenarios))"
proof -
  have "group_of groups p = filter (\<lambda>s. persona_key s = p) scenarios"
  proof (cases "p \<in> persona_key ` set scenarios")
    case True
    then show ?thesis by (simp add: group_of_def personaGroups_group [OF assms])
  next
    case False
    then have "filter (\<lambda>s. persona_key s = p) scenarios = []"
      by (auto simp: filter_empty_conv)
    with False show ?thesis by (simp add: group_of_def personaGroups_group [OF assms])
  qed
  then show ?thesis by (simp add: batch_names_def)
qed

lemma total_batches:
  assumes "personaGroups scenarios = Inr groups" and "distinct ps"
  shows "length (concat (map (batch_names groups) (filter P ps))) \<le> length scenarios"
proof -
  let ?size = "\<lambda>p. length (filter (\<lambda>s. persona_key s = p) scenarios)"
  have "length (concat (map (batch_names groups) (filter P ps)))
        = sum_list (map (\<lambda>p. length (batch_names groups p)) (filter P ps))"
    by (simp add: length_concat comp_def)
  also have "\<dots> \<le> sum_list (map ?size (filter P ps))"
    by (rule sum_list_mono) (simp add: batch_names_group [OF assms(1)] length_first_seen [THEN order_trans])
  also have "\<dots> \<le> sum_list (map ?size ps)"
    by (rule sum_list_filter_le)
  also have "\<dots> = length (filter (\<lambda>s. persona_key s \<in> set ps) scenarios)"
    using assms(2) by (rule sum_list_group_sizes)
  also have "\<dots> \<le> length scenarios"
    by (rule length_filter_le)
  finally show ?thesis .
qed

lemma set_batches:
  assumes "personaGroups scenarios = Inr groups"
  shows "set (concat (map (batch_names groups) ps)) \<subseteq> description ` set scenarios"
  by (auto simp: batch_names_group [OF assms] set_first_seen)

lemma distinct_limitedPersonas:
  assumes "personaGroups scenarios = Inr groups"
  shows "distinct (limitedPersonas groups)"
proof -
  have "distinct (map fst groups)"
    by (simp only: personaGroups_keys [OF assms] distinct_first_seen)
  then have "distinct (Object_keys groups)" by (rule distinct_Object_keys)
  then show ?thesis by (simp add: limitedPersonas_def)
qed

lemma limitedPersonas_keys:
  assumes "personaGroups scenarios = Inr groups"
  shows "set (limitedPersonas groups) \<subseteq> persona_key ` set scenarios"
  using limitedPersonas_subset [of groups]
  by (simp add: personaGroups_keys [OF assms] set_first_seen)

lemma uploadScenariosToDatabase_rejected:
  "result_insert_error env = Some msg \<Longrightarrow>
   uploadScenariosToDatabase env scenarios st
     = st\<lparr>trace := trace st @ [Insert_result, Failed_to_create_results_record msg]\<rparr>"
  by (simp add: uploadScenariosToDatabase_def emit_def Let_def)

lemma uploadScenariosToDatabase_thrown:
  "result_insert_error env = None \<Longrightarrow> personaGroups scenarios = Inl e \<Longrightarrow>
   uploadScenariosToDatabase env scenarios st
     = st\<lparr>trace := trace st @ [Insert_result, Database_upload_error],
          db := (db st)\<lparr>results := results (db st) @ [prData st (fresh_id (map r_id (results (db st))))]\<rparr>,
          resultId := Some (fresh_id (map r_id (results (db st))))\<rparr>"
  by (simp add: uploadScenariosToDatabase_def prData_emit Let_def) (simp add: emit_def)

lemma requests_append:
  "suite_requests (tr @ tr') = suite_requests tr @ suite_requests tr'"
  "test_requests (tr @ tr') = test_requests tr @ test_requests tr'"
  by (simp_all add: suite_requests_def test_requests_def)

lemma upload_test_requests:
  "\<exists>names. map t_name (test_requests (trace (uploadScenariosToDatabase env scenarios st)))
              = map t_name (test_requests (trace st)) @ names
     \<and> length names \<le> length scenarios \<and> set names \<subseteq> description ` set scenarios"
proof (cases "result_insert_error env")
  case (Some msg)
  have "test_requests (trace (uploadScenariosToDatabase env scenarios st)) = test_requests (trace st)"
    by (simp add: uploadScenariosToDatabase_rejected [OF Some] requests_append) (simp add: test_requests_def)
  then show ?thesis by simp
next
  case None
  show ?thesis
  proof (cases "personaGroups scenarios")
    case (Inl e)
    have "test_requests (trace (uploadScenariosToDatabase env scenarios st)) = test_requests (trace st)"
      by (simp add: uploadScenariosToDatabase_thrown [OF None Inl] requests_append) (simp add: test_requests_def)
    then show ?thesis by simp
  next
    case (Inr groups)
    let ?names = "concat (map (batch_names groups) (filter (suite_accepted env) (limitedPersonas groups)))"
    have "map t_name (test_requests (trace (uploadScenariosToDatabase env scenarios st)))
          = map t_name (test_requests (trace st)) @ ?names"
      by (simp add: uploadScenariosToDatabase_fold [OF None Inr] fold_test_requests requests_Insert_result)
    moreover have "length ?names \<le> length scenarios"
      using Inr distinct_limitedPersonas [OF Inr] by (rule total_batches)
    moreover have "set ?names \<subseteq> description ` set scenarios"
      using Inr by (rule set_batches)
    ultimately show ?thesis by blast
  qed
qed

lemma upload_suite_requests:
  "\<exists>ps. map s_name (suite_requests (trace (uploadScenariosToDatabase env scenarios st)))
              = map s_name (suite_requests (trace st)) @ map (\<lambda>p. p @ (str '' Agent Suite'')) ps
     \<and> set ps \<subseteq> persona_key ` set scenarios"
proof (cases "result_insert_error env")
  case (Some msg)
  have "suite_requests (trace (uploadScenariosToDatabase env scenarios st)) = suite_requests (trace st)"
    by (simp add: uploadScenariosToDatabase_rejected [OF Some] requests_append) (simp add: suite_requests_def)
  then have "map s_name (suite_requests (trace (uploadScenariosToDatabase env scenarios st)))
              = map s_name (suite_requests (trace st)) @ map (\<lambda>p. p @ (str '' Agent Suite'')) []" by simp
  then show ?thesis by (intro exI [of _ "[]"] conjI) simp_all
next
  case None
  show ?thesis
  proof (cases "personaGroups scenarios")
    case (Inl e)
    have "suite_requests (trace (uploadScenariosToDatabase env scenarios st)) = suite_requests (trace st)"
      by (simp add: uploadScenariosToDatabase_thrown [OF None Inl] requests_append) (simp add: suite_requests_def)
    then have "map s_name (suite_requests (trace (uploadScenariosToDatabase env scenarios st)))
              = map s_name (suite_requests (trace st)) @ map (\<lambda>p. p @ (str '' Agent Suite'')) []" by simp
    then show ?thesis by (intro exI [of _ "[]"] conjI) simp_all
  next
    case (Inr groups)
    have "map s_name (suite_requests (trace (uploadScenariosToDatabase env scenarios st)))
          = map s_name (suite_requests (trace st)) @ map (\<lambda>p. p @ (str '' Agent Suite'')) (limitedPersonas groups)"
      by (simp add: uploadScenariosToDatabase_fold [OF None Inr] fold_suite_requests requests_Insert_result)
    with limitedPersonas_keys [OF Inr] show ?thesis by blast
  qed
qed

lemma upload_tests_length:
  "length (tests (db (uploadScenariosToDatabase env scenarios st))) \<le> length (tests (db st)) + length scenarios"
proof (cases "result_insert_error env")
  case (Some msg)
  then show ?thesis by (simp add: uploadScenariosToDatabase_rejected)
next
  case None
  show ?thesis
  proof (cases "personaGroups scenarios")
    case (Inl e)
    then show ?thesis by (simp add: uploadScenariosToDatabase_thrown [OF None])
  next
    case (Inr groups)
    let ?names = "concat (map (batch_names groups) (filter (tests_accepted env) (limitedPersonas groups)))"
    have "map t_name (tests (db (uploadScenariosToDatabase env scenarios st)))
          = map t_name (tests (db st)) @ first_seen (map t_name (tests (db st))) ?names"
      by (simp add: uploadScenariosToDatabase_fold [OF None Inr] fold_tests)
    then have "length (map t_name (tests (db (uploadScenariosToDatabase env scenarios st))))
          = length (map t_name (tests (db st)) @ first_seen (map t_name (tests (db st))) ?names)"
      by (rule arg_cong)
    then have "length (tests (db (uploadScenariosToDatabase env scenarios st)))
          = length (tests (db st)) + length (first_seen (map t_name (tests (db st))) ?names)"
      by simp
    moreover have "length (first_seen (map t_name (tests (db st))) ?names) \<le> length ?names"
      by (rule length_first_seen)
    moreover have "length ?names \<le> length scenarios"
      using Inr distinct_limitedPersonas [OF Inr] by (rule total_batches)
    ultimately show ?thesis by linarith
  qed
qed

lemma runTests_catch_requests:
  "suite_requests (trace (snd (runTests_catch e st))) = suite_requests (trace st)"
  "test_requests (trace (snd (runTests_catch e st))) = test_requests (trace st)"
  by (simp_all add: runTests_catch_def emit_def Let_def suite_requests_def test_requests_def
      split: option.splits)

lemma runTests_requests:
  "suite_requests (trace (snd (runTests env scs st))) = suite_requests (trace st)
   \<and> test_requests (trace (snd (runTests env scs st))) = test_requests (trace st)"
proof (cases "set_variable (QAI_ENDPOINT env) \<and> truthy_id (resultId st)")
  case False
  then have "\<exists>e. runTests env scs st = runTests_catch e st"
    by (auto simp: runTests_def truthy_id_def split: option.splits)
  then show ?thesis using runTests_catch_requests by metis
next
  case True
  then obtain rid where rid: "resultId st = Some rid" "rid \<noteq> 0"
    by (auto simp: truthy_id_def split: option.splits)
  obtain resp d where call: "agent env (db st) = (resp, d)" by (cases "agent env (db st)")
  let ?st1 = "(emit (Post_run_result rid) st)\<lparr>db := d\<rparr>"
  have st1: "suite_requests (trace ?st1) = suite_requests (trace st)"
    "test_requests (trace ?st1) = test_requests (trace st)"
    by (simp_all add: emit_def suite_requests_def test_requests_def)
  note run = runTests_dispatch [OF conjunct1 [OF True] rid call, of scs]
  show ?thesis
  proof (cases "resp = Response (JStr (str ''success''))")
    case True
    then show ?thesis
      by (subst run, subst run, subst True, subst True)
         (simp add: suite_requests_def test_requests_def)
  next
    case False
    then have "\<exists>e. runTests env scs st = runTests_catch e ?st1"
      by (subst run, cases resp) auto
    then obtain e where "runTests env scs st = runTests_catch e ?st1" ..
    then show ?thesis by (simp only: runTests_catch_requests st1)
  qed
qed

text \<open>
  C10. The analysis phase keeps the first four of the generated scenarios, whatever
  their personas, and gives each its summary; nothing of a later scenario goes on. A
  run of the full pipeline therefore sends at most four Test records to the store, each
  named after one of the first four scenarios, and requests Suites only for personas of
  the first four scenarios; after the analysis phase the table of Tests has at most four
  rows more than before.
\<close>

theorem four_scenarios:
  "analyzed_scenarios (DEPLOYMENT_URL env) (Scenarios xs)
     = Inr (map (with_summary (deploymentUrl (DEPLOYMENT_URL env))) (take 4 xs))
   \<and> (\<exists>names. map t_name (test_requests (trace (snd (main_full env (Scenarios xs) st))))
                  = map t_name (test_requests (trace st)) @ names
          \<and> length names \<le> 4 \<and> set names \<subseteq> description ` set (take 4 xs))
   \<and> (\<exists>ps. map s_name (suite_requests (trace (snd (main_full env (Scenarios xs) st))))
               = map s_name (suite_requests (trace st)) @ map (\<lambda>p. p @ (str '' Agent Suite'')) ps
          \<and> set ps \<subseteq> persona_key ` set (take 4 xs))
   \<and> (\<forall>scs st'. analyzePR env (Scenarios xs) st = Inr (scs, st') \<longrightarrow>
          length (tests (db st')) \<le> length (tests (db st)) + 4)"
proof -
  let ?scs = "map (with_summary (deploymentUrl (DEPLOYMENT_URL env))) (take 4 xs)"
  let ?st1 = "uploadScenariosToDatabase env ?scs st"
  have cap: "analyzed_scenarios (DEPLOYMENT_URL env) (Scenarios xs) = Inr ?scs"
    by (rule analyzed_scenarios_take)
  have len: "length ?scs \<le> 4" by simp
  have descr: "description ` set ?scs = description ` set (take 4 xs)"
    by (simp add: image_image with_summary_keeps)
  have keys: "persona_key ` set ?scs = persona_key ` set (take 4 xs)"
    by (simp add: image_image with_summary_keeps)
  have analyze: "analyzePR env (Scenarios xs) st = Inr (?scs, ?st1)"
    by (simp add: analyzePR_def cap)
  have full: "snd (main_full env (Scenarios xs) st) = snd (runTests env ?scs ?st1)"
    by (simp add: main_full_def analyze split_beta Let_def)
  have tests: "\<exists>names. map t_name (test_requests (trace (snd (main_full env (Scenarios xs) st))))
                  = map t_name (test_requests (trace st)) @ names
          \<and> length names \<le> 4 \<and> set names \<subseteq> description ` set (take 4 xs)"
  proof -
    from upload_test_requests [of env ?scs st] obtain names
      where n: "map t_name (test_requests (trace ?st1)) = map t_name (test_requests (trace st)) @ names"
        "length names \<le> length ?scs" "set names \<subseteq> description ` set ?scs"
      by blast
    from n(1) have "map t_name (test_requests (trace (snd (main_full env (Scenarios xs) st))))
                  = map t_name (test_requests (trace st)) @ names"
      by (simp only: full runTests_requests)
    moreover from n(2) len have "length names \<le> 4" by (rule order_trans)
    moreover from n(3) have "set names \<subseteq> description ` set (take 4 xs)" by (simp only: descr)
    ultimately show ?thesis by blast
  qed
  have suites: "\<exists>ps. map s_name (suite_requests (trace (snd (main_full env (Scenarios xs) st))))
               = map s_name (suite_requests (trace st)) @ map (\<lambda>p. p @ (str '' Agent Suite'')) ps
          \<and> set ps \<subseteq> persona_key ` set (take 4 xs)"
  proof -
    from upload_suite_requests [of env ?scs st] obtain ps
      where p: "map s_name (suite_requests (trace ?st1))
                 = map s_name (suite_requests (trace st)) @ map (\<lambda>p. p @ (str '' Agent Suite'')) ps"
        "set ps \<subseteq> persona_key ` set ?scs"
      by blast
    from p(1) have "map s_name (suite_requests (trace (snd (main_full env (Scenarios xs) st))))
               = map s_name (suite_requests (trace st)) @ map (\<lambda>p. p @ (str '' Agent Suite'')) ps"
      by (simp only: full runTests_requests)
    moreover from p(2) have "set ps \<subseteq> persona_key ` set (take 4 xs)" by (simp only: keys)
    ultimately show ?thesis by blast
  qed
  have rows: "\<forall>scs st'. analyzePR env (Scenarios xs) st = Inr (scs, st') \<longrightarrow>
          length (tests (db st')) \<le> length (tests (db st)) + 4"
  proof (intro allI impI)
    fix scs st' assume "analyzePR env (Scenarios xs) st = Inr (scs, st')"
    with analyze have st': "st' = ?st1" by simp
    have "length (tests (db ?st1)) \<le> length (tests (db st)) + length ?scs"
      by (rule upload_tests_length)
    with len have "length (tests (db ?st1)) \<le> length (tests (db st)) + 4" by linarith
    then show "length (tests (db st')) \<le> length (tests (db st)) + 4" by (simp only: st')
  qed
  from cap tests suites rows show ?thesis by (intro conjI)
qed

theorem four_scenarios_witness:
  "analyzed_scenarios (DEPLOYMENT_URL calm_env) (Scenarios five_personas)
     = Inr [draft (str ''d1'') (str ''b'') (str ''s1''), draft (str ''d2'') (str ''c'') (str ''s2''), draft (str ''d3'') (str ''d'') (str ''s3''),
            draft (str ''d4'') (str ''e'') (str ''s4'')]
   \<and> map t_name (test_requests (trace (snd (main_full calm_env (Scenarios five_personas)
          (new_pipeline [str ''o'', str ''r''] (str ''7'') empty_store))))) = [str ''d1'', str ''d2'', str ''d3'', str ''d4'']
   \<and> map s_name (suite_requests (trace (snd (main_full calm_env (Scenarios five_personas)
          (new_pipeline [str ''o'', str ''r''] (str ''7'') empty_store)))))
       = [str ''b Agent Suite'', str ''c Agent Suite'', str ''d Agent Suite'', str ''e Agent Suite'']"
proof -
  have four: "map (with_summary (deploymentUrl (DEPLOYMENT_URL calm_env))) (take 4 five_personas)
      = [draft (str ''d1'') (str ''b'') (str ''s1''), draft (str ''d2'') (str ''c'') (str ''s2''), draft (str ''d3'') (str ''d'') (str ''s3''),
         draft (str ''d4'') (str ''e'') (str ''s4'')]"
    by (simp add: five_personas_def draft_def with_summary_def summary_given_iff
        is_white_space_def str_def)
  from four_scenarios [of calm_env five_personas "new_pipeline [str ''o'', str ''r''] (str ''7'') empty_store"]
  have a: "analyzed_scenarios (DEPLOYMENT_URL calm_env) (Scenarios five_personas)
     = Inr [draft (str ''d1'') (str ''b'') (str ''s1''), draft (str ''d2'') (str ''c'') (str ''s2''), draft (str ''d3'') (str ''d'') (str ''s3''),
            draft (str ''d4'') (str ''e'') (str ''s4'')]"
    by (simp only: four)
  have up: "trace (uploadScenariosToDatabase calm_env
        [draft (str ''d1'') (str ''b'') (str ''s1''), draft (str ''d2'') (str ''c'') (str ''s2''), draft (str ''d3'') (str ''d'') (str ''s3''), draft (str ''d4'') (str ''e'') (str ''s4'')]
        (new_pipeline [str ''o'', str ''r''] (str ''7'') empty_store))
      = [Insert_result,
         Insert_suite \<lparr>s_id = 1, result_id = 1, s_name = str ''b Agent Suite''\<rparr>,
         Upsert_tests [\<lparr>suite_id = 1, t_name = str ''d1'', t_summary = JStr (str ''s1''), test_success = None,
                         t_run_status = str ''RUNNING'', t_steps = []\<rparr>],
         Insert_suite \<lparr>s_id = 2, result_id = 1, s_name = str ''c Agent Suite''\<rparr>,
         Upsert_tests [\<lparr>suite_id = 2, t_name = str ''d2'', t_summary = JStr (str ''s2''), test_success = None,
                         t_run_status = str ''RUNNING'', t_steps = []\<rparr>],
         Insert_suite \<lparr>s_id = 3, result_id = 1, s_name = str ''d Agent Suite''\<rparr>,
         Upsert_tests [\<lparr>suite_id = 3, t_name = str ''d3'', t_summary = JStr (str ''s3''), test_success = None,
                         t_run_status = str ''RUNNING'', t_steps = []\<rparr>],
         Insert_suite \<lparr>s_id = 4, result_id = 1, s_name = str ''e Agent Suite''\<rparr>,
         Upsert_tests [\<lparr>suite_id = 4, t_name = str ''d4'', t_summary = JStr (str ''s4''), test_success = None,
                         t_run_status = str ''RUNNING'', t_steps = []\<rparr>]]"
    by (simp add: pipeline_defs example_defs)
  have full: "snd (main_full calm_env (Scenarios five_personas) (new_pipeline [str ''o'', str ''r''] (str ''7'') empty_store))
      = snd (runTests calm_env
          [draft (str ''d1'') (str ''b'') (str ''s1''), draft (str ''d2'') (str ''c'') (str ''s2''), draft (str ''d3'') (str ''d'') (str ''s3''), draft (str ''d4'') (str ''e'') (str ''s4'')]
          (uploadScenariosToDatabase calm_env
            [draft (str ''d1'') (str ''b'') (str ''s1''), draft (str ''d2'') (str ''c'') (str ''s2''), draft (str ''d3'') (str ''d'') (str ''s3''), draft (str ''d4'') (str ''e'') (str ''s4'')]
            (new_pipeline [str ''o'', str ''r''] (str ''7'') empty_store)))"
    by (simp add: main_full_def analyzePR_def a split_beta Let_def)
  have b: "map t_name (test_requests (trace (snd (main_full calm_env (Scenarios five_personas)
          (new_pipeline [str ''o'', str ''r''] (str ''7'') empty_store))))) = [str ''d1'', str ''d2'', str ''d3'', str ''d4'']"
    by (simp only: full runTests_requests up) (simp add: test_requests_def)
  have c: "map s_name (suite_requests (trace (snd (main_full calm_env (Scenarios five_personas)
          (new_pipeline [str ''o'', str ''r''] (str ''7'') empty_store)))))
       = [str ''b Agent Suite'', str ''c Agent Suite'', str ''d Agent Suite'', str ''e Agent Suite'']"
    by (simp only: full runTests_requests up) (simp add: suite_requests_def)
  from a b c show ?thesis by (intro conjI)
qed

section \<open>Identities and ownership in the store\<close>

lemma fold_max_ge: "m \<le> fold max ids (m::nat)"
  by (induction ids arbitrary: m) (auto intro: order_trans [OF max.cobounded2])

lemma fold_max_upper: "i \<in> set ids \<Longrightarrow> i \<le> fold max ids (m::nat)"
proof (induction ids arbitrary: m)
  case Nil
  then show ?case by simp
next
  case (Cons a ids)
  show ?case
  proof (cases "i = a")
    case True
    have "max a m \<le> fold max ids (max a m)" by (rule fold_max_ge)
    with True show ?thesis by simp
  next
    case False
    with Cons.prems have "i \<in> set ids" by simp
    then show ?thesis by (simp add: Cons.IH)
  qed
qed

lemma fresh_id_notin: "fresh_id ids \<notin> set ids"
proof
  assume "fresh_id ids \<in> set ids"
  then have "fresh_id ids \<le> fold max ids 0" by (rule fold_max_upper)
  then show False by (simp add: fresh_id_def)
qed

lemma fresh_id_pos: "fresh_id ids \<noteq> 0"
  by (simp add: fresh_id_def)

lemma wf_storeD:
  assumes "wf_store d"
  shows "distinct (map t_name (tests d))" and "distinct (map s_id (suites d))"
    and "t \<in> set (tests d) \<Longrightarrow> suite_id t \<in> set (map s_id (suites d))"
    and "s \<in> set (suites d) \<Longrightarrow> result_id s \<in> set (map r_id (results d))"
  using assms by (simp_all add: wf_store_def list_all_iff)

lemma wf_storeI:
  assumes "distinct (map t_name (tests d))" and "distinct (map s_id (suites d))"
    and "\<And>t. t \<in> set (tests d) \<Longrightarrow> suite_id t \<in> set (map s_id (suites d))"
    and "\<And>s. s \<in> set (suites d) \<Longrightarrow> result_id s \<in> set (map r_id (results d))"
  shows "wf_store d"
  using assms by (simp add: wf_store_def list_all_iff)

lemma run_ids_snoc:
  assumes "suites d' = suites d @ [row]" and "result_id row = rid"
  shows "set (map s_id (suites_of_result d' rid)) = insert (s_id row) (set (map s_id (suites_of_result d rid)))"
  using assms by (simp add: suites_of_result_def)

lemma wf_store_add_suite:
  assumes wf: "wf_store d" and rid: "rid \<in> set (map r_id (results d))"
    and res: "results d' = results d"
    and sui: "suites d' = suites d @ [row]" and row: "s_id row = fresh_id (map s_id (suites d))" "result_id row = rid"
    and tes: "tests d' = tests d \<or> (tests d' = upsert recs (tests d) \<and> (\<forall>r\<in>set recs. suite_id r = s_id row))"
  shows "wf_store d'"
proof (rule wf_storeI)
  show "distinct (map t_name (tests d'))"
    using tes wf_storeD(1) [OF wf] distinct_upsert [of "tests d" recs] by auto
  have "s_id row \<notin> set (map s_id (suites d))"
    unfolding row(1) by (rule fresh_id_notin)
  with wf_storeD(2) [OF wf] show "distinct (map s_id (suites d'))"
    by (simp add: sui)
  show "suite_id t \<in> set (map s_id (suites d'))" if t: "t \<in> set (tests d')" for t
  proof -
    have "t \<in> set (tests d) \<or> suite_id t = s_id row"
    proof (cases "tests d' = tests d")
      case True
      with t show ?thesis by simp
    next
      case False
      with tes have up: "tests d' = upsert recs (tests d)" and own: "\<forall>r\<in>set recs. suite_id r = s_id row"
        by simp_all
      from t have "t \<in> set recs \<or> (t \<in> set (tests d) \<and> t_name t \<notin> t_name ` set recs)"
        unfolding up by (rule upsert_cases)
      with own show ?thesis by blast
    qed
    then show ?thesis
    proof
      assume "t \<in> set (tests d)"
      then have "suite_id t \<in> set (map s_id (suites d))" by (rule wf_storeD(3) [OF wf])
      then show ?thesis by (simp add: sui)
    next
      assume "suite_id t = s_id row"
      then show ?thesis by (simp add: sui)
    qed
  qed
  show "result_id s \<in> set (map r_id (results d'))" if s: "s \<in> set (suites d')" for s
  proof -
    from s have "s \<in> set (suites d) \<or> s = row" by (auto simp: sui)
    then show ?thesis
    proof
      assume "s \<in> set (suites d)"
      then have "result_id s \<in> set (map r_id (results d))" by (rule wf_storeD(4) [OF wf])
      then show ?thesis by (simp only: res)
    next
      assume "s = row"
      with rid row(2) show ?thesis by (simp only: res)
    qed
  qed
qed

lemma owned_add_suite:
  assumes wf: "wf_store d"
    and sui: "suites d' = suites d @ [row]" and row: "s_id row = fresh_id (map s_id (suites d))" "result_id row = rid"
    and tes: "tests d' = tests d"
  shows "owned d' rid = owned d rid"
proof -
  have fresh: "s_id row \<notin> set (map s_id (suites d))"
    unfolding row(1) by (rule fresh_id_notin)
  have ids: "set (map s_id (suites_of_result d' rid)) = insert (s_id row) (set (map s_id (suites_of_result d rid)))"
    using sui row(2) by (rule run_ids_snoc)
  have "filter (\<lambda>t. suite_id t \<in> set (map s_id (suites_of_result d' rid))) (tests d)
      = filter (\<lambda>t. suite_id t \<in> set (map s_id (suites_of_result d rid))) (tests d)"
  proof (rule filter_cong [OF refl])
    fix t assume "t \<in> set (tests d)"
    then have "suite_id t \<in> set (map s_id (suites d))" by (rule wf_storeD(3) [OF wf])
    with fresh have "suite_id t \<noteq> s_id row" by metis
    then show "(suite_id t \<in> set (map s_id (suites_of_result d' rid)))
        = (suite_id t \<in> set (map s_id (suites_of_result d rid)))"
      unfolding ids by simp
  qed
  then show ?thesis by (simp add: owned_def tes)
qed

lemma owned_add_batch:
  assumes wf: "wf_store d"
    and sui: "suites d' = suites d @ [row]" and row: "s_id row = fresh_id (map s_id (suites d))" "result_id row = rid"
    and tes: "tests d' = upsert recs (tests d)"
    and own: "\<forall>r\<in>set recs. suite_id r = s_id row" and dist: "distinct (map t_name recs)"
  shows "set (map t_name (owned d' rid)) = set (map t_name (owned d rid)) \<union> set (map t_name recs)"
proof -
  have fresh: "s_id row \<notin> set (map s_id (suites d))"
    unfolding row(1) by (rule fresh_id_notin)
  have ids: "set (map s_id (suites_of_result d' rid)) = insert (s_id row) (set (map s_id (suites_of_result d rid)))"
    using sui row(2) by (rule run_ids_snoc)
  then have ids': "s_id ` set (suites_of_result d' rid) = insert (s_id row) (s_id ` set (suites_of_result d rid))"
    by simp
  have old: "suite_id t \<noteq> s_id row" if "t \<in> set (tests d)" for t
  proof -
    from that have "suite_id t \<in> set (map s_id (suites d))" by (rule wf_storeD(3) [OF wf])
    with fresh show ?thesis by metis
  qed
  show ?thesis
  proof (intro equalityI subsetI)
    fix n assume "n \<in> set (map t_name (owned d' rid))"
    then obtain t where t0: "t \<in> set (owned d' rid)" and tn: "n = t_name t" by auto
    from t0 have tu: "t \<in> set (upsert recs (tests d))"
      and "suite_id t \<in> set (map s_id (suites_of_result d' rid))"
      by (simp_all add: owned_def tes)
    then have o: "suite_id t \<in> insert (s_id row) (set (map s_id (suites_of_result d rid)))"
      by (simp only: ids)
    note t = tu tn
    from t(1) have "t \<in> set recs \<or> (t \<in> set (tests d) \<and> t_name t \<notin> t_name ` set recs)"
      by (rule upsert_cases)
    then show "n \<in> set (map t_name (owned d rid)) \<union> set (map t_name recs)"
    proof
      assume "t \<in> set recs"
      with t(2) show ?thesis by simp
    next
      assume a: "t \<in> set (tests d) \<and> t_name t \<notin> t_name ` set recs"
      then have "suite_id t \<noteq> s_id row" using old by blast
      with o have "suite_id t \<in> set (map s_id (suites_of_result d rid))" by simp
      with a have "t \<in> set (owned d rid)" by (simp add: owned_def)
      with t(2) show ?thesis by auto
    qed
  next
    fix n assume n: "n \<in> set (map t_name (owned d rid)) \<union> set (map t_name recs)"
    show "n \<in> set (map t_name (owned d' rid))"
    proof (cases "n \<in> set (map t_name recs)")
      case True
      then obtain r where r: "r \<in> set recs" "n = t_name r" by auto
      from dist r(1) have "r \<in> set (upsert recs (tests d))" by (rule upsert_member)
      moreover from own r(1) have "suite_id r = s_id row" by blast
      ultimately have "r \<in> set (owned d' rid)" by (simp add: owned_def tes ids')
      with r(2) show ?thesis by auto
    next
      case False
      with n have "n \<in> set (map t_name (owned d rid))" by simp
      then obtain t where t0: "t \<in> set (owned d rid)" and tn: "n = t_name t" by auto
      from t0 have tu: "t \<in> set (tests d)"
        and o: "suite_id t \<in> set (map s_id (suites_of_result d rid))"
        by (simp_all add: owned_def)
      note t = tu tn
      from False t(2) have "t_name t \<notin> t_name ` set recs" by simp
      with t(1) have "t \<in> set (upsert recs (tests d))" by (rule upsert_keeps)
      with o have "t \<in> set (owned d' rid)" by (simp add: owned_def tes ids')
      with t(2) show ?thesis by auto
    qed
  qed
qed

lemma wf_store_cong:
  "results d' = results d \<Longrightarrow> suites d' = suites d \<Longrightarrow> tests d' = tests d \<Longrightarrow>
   wf_store d' = wf_store d"
  by (simp add: wf_store_def)

lemma owned_cong:
  "suites d' = suites d \<Longrightarrow> tests d' = tests d \<Longrightarrow> owned d' rid = owned d rid"
  by (simp add: owned_def suites_of_result_def)

lemma tests_accepted_suite: "tests_accepted env name \<Longrightarrow> suite_accepted env name"
  by (simp add: tests_accepted_def suite_accepted_def)

lemma suite_pass_inv:
  assumes wf: "wf_store (db st)" and rid: "rid \<in> set (map r_id (results (db st)))"
  shows "wf_store (db (suite_pass env rid g name st))"
    and "set (map t_name (owned (db (suite_pass env rid g name st)) rid))
         = set (map t_name (owned (db st) rid)) \<union>
           (if tests_accepted env name then set (first_seen [] (map description g)) else {})"
proof -
  let ?st' = "suite_pass env rid g name st"
  let ?sid = "fresh_id (map s_id (suites (db st)))"
  let ?row = "\<lparr>s_id = ?sid, result_id = rid, s_name = name @ (str '' Agent Suite'')\<rparr>"
  let ?recs = "testRecords ?sid g"
  have res: "results (db ?st') = results (db st)" by (rule suite_pass_results)
  have own: "\<forall>r\<in>set ?recs. suite_id r = s_id ?row"
    by (simp add: testRecords_suite_id)
  have dist: "distinct (map t_name ?recs)"
    by (simp only: names_testRecords distinct_first_seen)
  have row: "s_id ?row = fresh_id (map s_id (suites (db st)))" "result_id ?row = rid" by simp_all
  have both: "wf_store (db ?st') \<and>
      set (map t_name (owned (db ?st') rid))
         = set (map t_name (owned (db st) rid)) \<union>
           (if tests_accepted env name then set (first_seen [] (map description g)) else {})"
  proof (cases "suite_accepted env name")
    case False
    then have nt: "\<not> tests_accepted env name" using tests_accepted_suite by blast
    from False have sui: "suites (db ?st') = suites (db st)" by (simp add: suite_pass_suites)
    from nt have tes: "tests (db ?st') = tests (db st)" by (simp add: suite_pass_tests)
    from wf have "wf_store (db ?st')" by (simp only: wf_store_cong [OF res sui tes])
    moreover have "owned (db ?st') rid = owned (db st) rid" using sui tes by (rule owned_cong)
    ultimately show ?thesis using nt by simp
  next
    case True
    then have sui: "suites (db ?st') = suites (db st) @ [?row]" by (simp add: suite_pass_suites)
    show ?thesis
    proof (cases "tests_accepted env name")
      case False
      then have tes: "tests (db ?st') = tests (db st)" by (simp add: suite_pass_tests)
      then have "tests (db ?st') = tests (db st) \<or>
          (tests (db ?st') = upsert ?recs (tests (db st)) \<and> (\<forall>r\<in>set ?recs. suite_id r = s_id ?row))"
        by (rule disjI1)
      with wf rid res sui row have "wf_store (db ?st')" by (rule wf_store_add_suite)
      moreover have "owned (db ?st') rid = owned (db st) rid"
        using wf sui row tes by (rule owned_add_suite)
      ultimately show ?thesis using False by simp
    next
      case True
      then have tes: "tests (db ?st') = upsert ?recs (tests (db st))" by (simp add: suite_pass_tests)
      with own have "tests (db ?st') = tests (db st) \<or>
          (tests (db ?st') = upsert ?recs (tests (db st)) \<and> (\<forall>r\<in>set ?recs. suite_id r = s_id ?row))"
        by (intro disjI2 conjI)
      with wf rid res sui row have "wf_store (db ?st')" by (rule wf_store_add_suite)
      moreover have "set (map t_name (owned (db ?st') rid))
          = set (map t_name (owned (db st) rid)) \<union> set (map t_name ?recs)"
        using wf sui row tes own dist by (rule owned_add_batch)
      ultimately show ?thesis using True by (simp only: names_testRecords if_True simp_thms)
    qed
  qed
  from both show "wf_store (db ?st')" by (rule conjunct1)
  from both show "set (map t_name (owned (db ?st') rid))
         = set (map t_name (owned (db st) rid)) \<union>
           (if tests_accepted env name then set (first_seen [] (map description g)) else {})"
    by (rule conjunct2)
qed

lemma fold_inv:
  assumes "wf_store (db st)" and "rid \<in> set (map r_id (results (db st)))"
  shows "wf_store (db (fold (\<lambda>p. suite_pass env rid (group_of groups p) p) ps st))
     \<and> set (map t_name (owned (db (fold (\<lambda>p. suite_pass env rid (group_of groups p) p) ps st)) rid))
         = set (map t_name (owned (db st) rid)) \<union>
           set (concat (map (batch_names groups) (filter (tests_accepted env) ps)))"
  using assms
proof (induction ps arbitrary: st)
  case Nil
  then show ?case by simp
next
  case (Cons p ps)
  let ?st1 = "suite_pass env rid (group_of groups p) p st"
  have wf1: "wf_store (db ?st1)"
    using Cons.prems by (rule suite_pass_inv(1))
  have rid1: "rid \<in> set (map r_id (results (db ?st1)))"
    using Cons.prems(2) by (simp only: suite_pass_results)
  have own1: "set (map t_name (owned (db ?st1) rid))
         = set (map t_name (owned (db st) rid)) \<union>
           (if tests_accepted env p then set (batch_names groups p) else {})"
    unfolding batch_names_def using Cons.prems by (rule suite_pass_inv(2))
  from Cons.IH [OF wf1 rid1] own1 show ?case
    by (cases "tests_accepted env p") (simp_all add: Un_assoc)
qed

section \<open>A rerun of the persist step\<close>

lemma r_id_prData: "r_id (prData st i) = i"
  by (simp add: prData_def)

lemma no_suites_of_fresh_result:
  assumes "wf_store d" and "suites d' = suites d"
  shows "suites_of_result d' (fresh_id (map r_id (results d))) = []"
proof -
  have "result_id s \<noteq> fresh_id (map r_id (results d))" if "s \<in> set (suites d)" for s
  proof -
    from that have "result_id s \<in> set (map r_id (results d))" by (rule wf_storeD(4) [OF assms(1)])
    then show ?thesis using fresh_id_notin [of "map r_id (results d)"] by metis
  qed
  then show ?thesis by (simp add: suites_of_result_def assms(2) filter_empty_conv)
qed

lemma wf_store_add_result:
  assumes "wf_store d" and "results d' = results d @ [r]" and "suites d' = suites d" and "tests d' = tests d"
  shows "wf_store d'"
proof (rule wf_storeI)
  show "distinct (map t_name (tests d'))" using wf_storeD(1) [OF assms(1)] by (simp only: assms(4))
  show "distinct (map s_id (suites d'))" using wf_storeD(2) [OF assms(1)] by (simp only: assms(3))
  show "suite_id t \<in> set (map s_id (suites d'))" if "t \<in> set (tests d')" for t
    using that wf_storeD(3) [OF assms(1), of t] by (simp only: assms(3,4))
  show "result_id s \<in> set (map r_id (results d'))" if "s \<in> set (suites d')" for s
  proof -
    from that have "result_id s \<in> set (map r_id (results d))"
      using wf_storeD(4) [OF assms(1), of s] by (simp only: assms(3))
    then show ?thesis by (simp add: assms(2))
  qed
qed

lemma upload_inv:
  assumes wf: "wf_store (db st)" and ok: "result_insert_error env = None"
  shows "wf_store (db (uploadScenariosToDatabase env scenarios st))"
    and "set (map t_name (owned (db (uploadScenariosToDatabase env scenarios st))
                (fresh_id (map r_id (results (db st)))))) = set (persist_names env scenarios)"
    and "results (db (uploadScenariosToDatabase env scenarios st))
           = results (db st) @ [prData st (fresh_id (map r_id (results (db st))))]"
    and "resultId (uploadScenariosToDatabase env scenarios st) = Some (fresh_id (map r_id (results (db st))))"
    and "map t_name (tests (db (uploadScenariosToDatabase env scenarios st)))
           = map t_name (tests (db st)) @ first_seen (map t_name (tests (db st))) (persist_names env scenarios)"
proof -
  let ?rid = "fresh_id (map r_id (results (db st)))"
  let ?st1 = "st\<lparr>trace := trace st @ [Insert_result],
           db := (db st)\<lparr>results := results (db st) @ [prData st ?rid]\<rparr>,
           resultId := Some ?rid, suiteIds := []\<rparr>"
  let ?up = "uploadScenariosToDatabase env scenarios st"
  have comp1: "results (db ?st1) = results (db st) @ [prData st ?rid]" "suites (db ?st1) = suites (db st)"
    "tests (db ?st1) = tests (db st)" "resultId ?st1 = Some ?rid"
    by simp_all
  have wf1: "wf_store (db ?st1)"
    using wf comp1(1,2,3) by (rule wf_store_add_result)
  have rid1: "?rid \<in> set (map r_id (results (db ?st1)))"
    by (simp add: r_id_prData)
  have "suites_of_result (db ?st1) ?rid = []"
    using wf comp1(2) by (rule no_suites_of_fresh_result)
  then have own1: "owned (db ?st1) ?rid = []"
    by (simp add: owned_def)
  have all: "wf_store (db ?up) \<and> set (map t_name (owned (db ?up) ?rid)) = set (persist_names env scenarios)
      \<and> results (db ?up) = results (db st) @ [prData st ?rid] \<and> resultId ?up = Some ?rid
      \<and> map t_name (tests (db ?up))
           = map t_name (tests (db st)) @ first_seen (map t_name (tests (db st))) (persist_names env scenarios)"
  proof (cases "personaGroups scenarios")
    case (Inl e)
    have up: "?up = st\<lparr>trace := trace st @ [Insert_result, Database_upload_error],
          db := (db st)\<lparr>results := results (db st) @ [prData st ?rid]\<rparr>,
          resultId := Some ?rid\<rparr>"
      using ok Inl by (rule uploadScenariosToDatabase_thrown)
    have comp: "results (db ?up) = results (db ?st1)" "suites (db ?up) = suites (db ?st1)"
      "tests (db ?up) = tests (db ?st1)" "resultId ?up = Some ?rid"
      by (simp_all add: up)
    have "wf_store (db ?up)" using wf1 by (simp only: wf_store_cong [OF comp(1,2,3)])
    moreover have "owned (db ?up) ?rid = []"
      using own1 by (simp only: owned_cong [OF comp(2,3)])
    moreover have "persist_names env scenarios = []" by (simp add: persist_names_def Inl)
    ultimately show ?thesis using comp comp1 by simp
  next
    case (Inr groups)
    have up: "?up = fold (\<lambda>p. suite_pass env ?rid (group_of groups p) p) (limitedPersonas groups) ?st1"
      using ok Inr by (rule uploadScenariosToDatabase_fold)
    have names: "persist_names env scenarios
        = concat (map (batch_names groups) (filter (tests_accepted env) (limitedPersonas groups)))"
      by (simp add: persist_names_def Inr)
    from fold_inv [OF wf1 rid1, of env groups "limitedPersonas groups"]
    have "wf_store (db ?up)" and "set (map t_name (owned (db ?up) ?rid)) = set (persist_names env scenarios)"
      by (simp_all only: up [symmetric] names [symmetric] own1 list.map set_simps Un_empty_left)
    moreover have "results (db ?up) = results (db st) @ [prData st ?rid]" "resultId ?up = Some ?rid"
      by (simp_all only: up fold_results comp1)
    moreover have "map t_name (tests (db ?up))
           = map t_name (tests (db st)) @ first_seen (map t_name (tests (db st))) (persist_names env scenarios)"
      by (simp only: up fold_tests comp1 names)
    ultimately show ?thesis by (intro conjI)
  qed
  from all show "wf_store (db ?up)" by simp
  from all show "set (map t_name (owned (db ?up) ?rid)) = set (persist_names env scenarios)" by simp
  from all show "results (db ?up) = results (db st) @ [prData st ?rid]" by simp
  from all show "resultId ?up = Some ?rid" by simp
  from all show "map t_name (tests (db ?up))
           = map t_name (tests (db st)) @ first_seen (map t_name (tests (db st))) (persist_names env scenarios)"
    by simp
qed

lemma read_back_total:
  assumes wf: "wf_store d" and one: "filter (\<lambda>r. r_id r = rid) (results d) = [r]"
  shows "\<exists>res. readHierarchy d (Some rid) = Some res
           \<and> totalTests res = card (set (map t_name (owned d rid)))"
proof -
  let ?res = "\<lparr>result = r,
       result_suites = Some (map (\<lambda>s. \<lparr>suite = s, suite_tests = Some (tests_of_suite d (s_id s))\<rparr>)
                              (suites_of_result d rid))\<rparr>"
  have read: "readHierarchy d (Some rid) = Some ?res"
    by (simp add: readHierarchy_def one)
  have "distinct (map s_id (suites_of_result d rid))"
    unfolding suites_of_result_def using wf_storeD(2) [OF wf] by (rule distinct_map_filter)
  then have sum: "sum_list (map (\<lambda>i. length (filter (\<lambda>t. suite_id t = i) (tests d)))
                     (map s_id (suites_of_result d rid)))
        = length (filter (\<lambda>t. suite_id t \<in> set (map s_id (suites_of_result d rid))) (tests d))"
    by (rule sum_list_group_sizes)
  have "totalTests ?res = length (all_tests ?res)" by (rule totalTests_all_tests)
  also have "\<dots> = sum_list (map (\<lambda>i. length (filter (\<lambda>t. suite_id t = i) (tests d)))
                     (map s_id (suites_of_result d rid)))"
    by (simp add: all_tests_def length_concat comp_def tests_of_suite_def)
  also have "\<dots> = length (owned d rid)"
    by (simp only: sum owned_def)
  also have "\<dots> = length (map t_name (owned d rid))" by simp
  also have "\<dots> = card (set (map t_name (owned d rid)))"
  proof -
    have "distinct (map t_name (owned d rid))"
      unfolding owned_def using wf_storeD(1) [OF wf] by (rule distinct_map_filter)
    then show ?thesis by (simp only: distinct_card)
  qed
  finally have "totalTests ?res = card (set (map t_name (owned d rid)))" .
  with read show ?thesis by blast
qed

lemma upload_read_back:
  assumes wf: "wf_store (db st)" and ok: "result_insert_error env = None"
  shows "\<exists>res. readHierarchy (db (uploadScenariosToDatabase env scenarios st))
                  (resultId (uploadScenariosToDatabase env scenarios st)) = Some res
           \<and> totalTests res = card (set (persist_names env scenarios))"
proof -
  let ?rid = "fresh_id (map r_id (results (db st)))"
  let ?up = "uploadScenariosToDatabase env scenarios st"
  note inv = upload_inv [OF wf ok, of scenarios]
  have "r_id x \<noteq> ?rid" if "x \<in> set (results (db st))" for x
  proof -
    from that have "r_id x \<in> set (map r_id (results (db st)))" by simp
    then show ?thesis using fresh_id_notin [of "map r_id (results (db st))"] by metis
  qed
  then have "filter (\<lambda>r. r_id r = ?rid) (results (db st)) = []"
    by (simp add: filter_empty_conv)
  then have one: "filter (\<lambda>r. r_id r = ?rid) (results (db ?up)) = [prData st ?rid]"
    by (simp add: inv(3) r_id_prData)
  from read_back_total [OF inv(1) one] show ?thesis
    by (simp only: inv(2) inv(4))
qed

text \<open>
  C4, as the code has it. Start from a store whose Tests have unique names, whose Suites
  have unique identities, and whose Tests and Suites refer to a Suite and a Run that are
  there; let the store accept the insert of a Run. Run the persist step, then run it again
  with the same scenario list and the same answers of the store. After the rerun the names
  of the Tests are still unique, the table of Tests has the same names in the same order
  as after the first run (no row was added), and the number of Tests read back for the
  Run of the rerun equals the number read back for the Run of the first run after the
  first run. The rerun does create a Run record of its own: the table of Runs has one row
  more, and \<open>resultId\<close> is a new identity.
\<close>

theorem rerun_upserts:
  assumes "wf_store (db st)" and "result_insert_error env = None"
  shows "distinct (map t_name (tests (db (uploadScenariosToDatabase env scenarios
                                              (uploadScenariosToDatabase env scenarios st)))))
   \<and> map t_name (tests (db (uploadScenariosToDatabase env scenarios
                                (uploadScenariosToDatabase env scenarios st))))
       = map t_name (tests (db (uploadScenariosToDatabase env scenarios st)))
   \<and> (\<exists>res1 res2.
         readHierarchy (db (uploadScenariosToDatabase env scenarios st))
           (resultId (uploadScenariosToDatabase env scenarios st)) = Some res1
       \<and> readHierarchy (db (uploadScenariosToDatabase env scenarios
                               (uploadScenariosToDatabase env scenarios st)))
           (resultId (uploadScenariosToDatabase env scenarios
                       (uploadScenariosToDatabase env scenarios st))) = Some res2
       \<and> totalTests res2 = totalTests res1)
   \<and> length (results (db (uploadScenariosToDatabase env scenarios
                              (uploadScenariosToDatabase env scenarios st))))
       = Suc (length (results (db (uploadScenariosToDatabase env scenarios st))))
   \<and> resultId (uploadScenariosToDatabase env scenarios (uploadScenariosToDatabase env scenarios st))
       \<noteq> resultId (uploadScenariosToDatabase env scenarios st)"
proof -
  let ?st1 = "uploadScenariosToDatabase env scenarios st"
  let ?st2 = "uploadScenariosToDatabase env scenarios ?st1"
  let ?N = "persist_names env scenarios"
  note inv1 = upload_inv [OF assms, of scenarios]
  note inv2 = upload_inv [OF inv1(1) assms(2), of scenarios]
  have uniq: "distinct (map t_name (tests (db ?st2)))"
    using inv2(1) by (rule wf_storeD(1))
  have "set ?N \<subseteq> set (map t_name (tests (db ?st1)))"
    by (subst inv1(5)) (auto simp: set_first_seen)
  then have "first_seen (map t_name (tests (db ?st1))) ?N = []"
    by (rule first_seen_Nil)
  then have same: "map t_name (tests (db ?st2)) = map t_name (tests (db ?st1))"
    by (simp add: inv2(5))
  from upload_read_back [OF assms, of scenarios] obtain res1
    where r1: "readHierarchy (db ?st1) (resultId ?st1) = Some res1" "totalTests res1 = card (set ?N)"
    by blast
  from upload_read_back [OF inv1(1) assms(2), of scenarios] obtain res2
    where r2: "readHierarchy (db ?st2) (resultId ?st2) = Some res2" "totalTests res2 = card (set ?N)"
    by blast
  from r1 r2 have count: "\<exists>res1 res2. readHierarchy (db ?st1) (resultId ?st1) = Some res1
       \<and> readHierarchy (db ?st2) (resultId ?st2) = Some res2 \<and> totalTests res2 = totalTests res1"
    by simp
  have runs: "length (results (db ?st2)) = Suc (length (results (db ?st1)))"
    by (simp add: inv2(3))
  have "fresh_id (map r_id (results (db ?st1))) \<noteq> fresh_id (map r_id (results (db st)))"
  proof -
    have "fresh_id (map r_id (results (db st))) \<in> set (map r_id (results (db ?st1)))"
      by (simp add: inv1(3) r_id_prData)
    then show ?thesis using fresh_id_notin [of "map r_id (results (db ?st1))"] by metis
  qed
  then have new_run: "resultId ?st2 \<noteq> resultId ?st1"
    by (simp add: inv1(4) inv2(4))
  from uniq same count runs new_run show ?thesis by (intro conjI)
qed

lemma spec_example_once:
  "db (uploadScenariosToDatabase calm_env spec_example (new_pipeline [str ''o'', str ''r''] (str ''7'') empty_store))
     = \<lparr>results = [\<lparr>r_id = 1, pr_link = str ''https://github.com/o/r/pull/7'', pr_name = str ''PR #7'',
                     overall_result = None, r_run_status = str ''RUNNING''\<rparr>],
        suites = [\<lparr>s_id = 1, result_id = 1, s_name = str ''A Agent Suite''\<rparr>,
                  \<lparr>s_id = 2, result_id = 1, s_name = str ''B Agent Suite''\<rparr>,
                  \<lparr>s_id = 3, result_id = 1, s_name = str ''C Agent Suite''\<rparr>],
        tests = [\<lparr>suite_id = 1, t_name = str ''desc1'', t_summary = JStr (str ''last''), test_success = None,
                   t_run_status = str ''RUNNING'', t_steps = []\<rparr>,
                 \<lparr>suite_id = 1, t_name = str ''desc2'', t_summary = JStr (str ''s2''), test_success = None,
                   t_run_status = str ''RUNNING'', t_steps = []\<rparr>,
                 \<lparr>suite_id = 3, t_name = str ''desc3'', t_summary = JStr (str ''s4''), test_success = None,
                   t_run_status = str ''RUNNING'', t_steps = []\<rparr>]\<rparr>"
  by (simp add: spec_example_def pipeline_defs example_defs)

lemma spec_example_twice:
  "db (uploadScenariosToDatabase calm_env spec_example
        (uploadScenariosToDatabase calm_env spec_example (new_pipeline [str ''o'', str ''r''] (str ''7'') empty_store)))
     = \<lparr>results = [\<lparr>r_id = 1, pr_link = str ''https://github.com/o/r/pull/7'', pr_name = str ''PR #7'',
                     overall_result = None, r_run_status = str ''RUNNING''\<rparr>,
                   \<lparr>r_id = 2, pr_link = str ''https://github.com/o/r/pull/7'', pr_name = str ''PR #7'',
                     overall_result = None, r_run_status = str ''RUNNING''\<rparr>],
        suites = [\<lparr>s_id = 1, result_id = 1, s_name = str ''A Agent Suite''\<rparr>,
                  \<lparr>s_id = 2, result_id = 1, s_name = str ''B Agent Suite''\<rparr>,
                  \<lparr>s_id = 3, result_id = 1, s_name = str ''C Agent Suite''\<rparr>,
                  \<lparr>s_id = 4, result_id = 2, s_name = str ''A Agent Suite''\<rparr>,
                  \<lparr>s_id = 5, result_id = 2, s_name = str ''B Agent Suite''\<rparr>,
                  \<lparr>s_id = 6, result_id = 2, s_name = str ''C Agent Suite''\<rparr>],
        tests = [\<lparr>suite_id = 4, t_name = str ''desc1'', t_summary = JStr (str ''last''), test_success = None,
                   t_run_status = str ''RUNNING'', t_steps = []\<rparr>,
                 \<lparr>suite_id = 4, t_name = str ''desc2'', t_summary = JStr (str ''s2''), test_success = None,
                   t_run_status = str ''RUNNING'', t_steps = []\<rparr>,
                 \<lparr>suite_id = 6, t_name = str ''desc3'', t_summary = JStr (str ''s4''), test_success = None,
                   t_run_status = str ''RUNNING'', t_steps = []\<rparr>]\<rparr>"
  by (simp add: spec_example_def pipeline_defs example_defs)

theorem rerun_upserts_witness:
  "wf_store (db (new_pipeline [str ''o'', str ''r''] (str ''7'') empty_store)) \<and> result_insert_error calm_env = None
   \<and> map t_name (tests (db (uploadScenariosToDatabase calm_env spec_example
          (uploadScenariosToDatabase calm_env spec_example (new_pipeline [str ''o'', str ''r''] (str ''7'') empty_store)))))
       = [str ''desc1'', str ''desc2'', str ''desc3'']
   \<and> map t_name (tests (db (uploadScenariosToDatabase calm_env spec_example
          (new_pipeline [str ''o'', str ''r''] (str ''7'') empty_store))))
       = [str ''desc1'', str ''desc2'', str ''desc3'']"
proof -
  have h: "wf_store (db (new_pipeline [str ''o'', str ''r''] (str ''7'') empty_store))" "result_insert_error calm_env = None"
    by (simp_all add: wf_store_def new_pipeline_def empty_store_def calm_env_def)
  have once: "map t_name (tests (db (uploadScenariosToDatabase calm_env spec_example
          (new_pipeline [str ''o'', str ''r''] (str ''7'') empty_store)))) = [str ''desc1'', str ''desc2'', str ''desc3'']"
    by (simp add: spec_example_once)
  from rerun_upserts [OF h, of spec_example]
  have "map t_name (tests (db (uploadScenariosToDatabase calm_env spec_example
          (uploadScenariosToDatabase calm_env spec_example (new_pipeline [str ''o'', str ''r''] (str ''7'') empty_store)))))
       = map t_name (tests (db (uploadScenariosToDatabase calm_env spec_example
          (new_pipeline [str ''o'', str ''r''] (str ''7'') empty_store))))"
    by (rule conjunct2 [THEN conjunct1])
  with once h show ?thesis by simp
qed

text \<open>
  C4 as stated fails in its last part: the rerun of the example inserts a second Run
  record and three more Suite records; \<open>resultId\<close> goes from 1 to 2.
\<close>

theorem rerun_upserts_counterexample:
  "map r_id (results (db (uploadScenariosToDatabase calm_env spec_example
        (new_pipeline [str ''o'', str ''r''] (str ''7'') empty_store)))) = [1]
   \<and> map r_id (results (db (uploadScenariosToDatabase calm_env spec_example
        (uploadScenariosToDatabase calm_env spec_example (new_pipeline [str ''o'', str ''r''] (str ''7'') empty_store)))))
      = [1, 2]
   \<and> length (suites (db (uploadScenariosToDatabase calm_env spec_example
        (uploadScenariosToDatabase calm_env spec_example (new_pipeline [str ''o'', str ''r''] (str ''7'') empty_store)))))
      = 6"
  by (simp add: spec_example_once spec_example_twice)

section \<open>A description shared by two personas\<close>









section \<open>The summaries of the generated scenarios\<close>



end
